theory Spec2Isabelle
  imports Main "HOL-Library.FSet" "HOL-Library.Sublist"
begin

section \<open>Strings of the Go runtime\<close>

text \<open>
  A Go \<^verbatim>\<open>string\<close> is a sequence of bytes and \<^verbatim>\<open>len\<close> counts bytes; so is
  \<^typ>\<open>string\<close> here, with \<^const>\<open>length\<close> for \<^verbatim>\<open>len\<close>.

  \<^verbatim>\<open>strings.TrimSpace\<close> removes leading and trailing white space as Unicode defines
  it (\<^verbatim>\<open>unicode.IsSpace\<close>). The white-space runes are U+0009..U+000D, U+0020, U+0085,
  U+00A0, U+1680, U+2000..U+200A, U+2028, U+2029, U+202F, U+205F and U+3000; the list
  below holds their UTF-8 encodings. Only these byte sequences decode to a white-space
  rune (the decoder rejects over-long forms), so trimming removes them from both ends.
\<close>

definition space_runes :: "string list" where
  "space_runes =
    [[CHR 0x09], [CHR 0x0A], [CHR 0x0B], [CHR 0x0C], [CHR 0x0D], [CHR 0x20],
     [CHR 0xC2, CHR 0x85], [CHR 0xC2, CHR 0xA0],
     [CHR 0xE1, CHR 0x9A, CHR 0x80],
     [CHR 0xE2, CHR 0x80, CHR 0x80], [CHR 0xE2, CHR 0x80, CHR 0x81],
     [CHR 0xE2, CHR 0x80, CHR 0x82], [CHR 0xE2, CHR 0x80, CHR 0x83],
     [CHR 0xE2, CHR 0x80, CHR 0x84], [CHR 0xE2, CHR 0x80, CHR 0x85],
     [CHR 0xE2, CHR 0x80, CHR 0x86], [CHR 0xE2, CHR 0x80, CHR 0x87],
     [CHR 0xE2, CHR 0x80, CHR 0x88], [CHR 0xE2, CHR 0x80, CHR 0x89],
     [CHR 0xE2, CHR 0x80, CHR 0x8A],
     [CHR 0xE2, CHR 0x80, CHR 0xA8], [CHR 0xE2, CHR 0x80, CHR 0xA9],
     [CHR 0xE2, CHR 0x80, CHR 0xAF], [CHR 0xE2, CHR 0x81, CHR 0x9F],
     [CHR 0xE3, CHR 0x80, CHR 0x80]]"

text \<open>The width of the pattern of \<open>ps\<close> that \<open>s\<close> starts with, or 0 when there is none.\<close>

definition match_len :: "string list \<Rightarrow> string \<Rightarrow> nat" where
  "match_len ps s =
     (case find (\<lambda>w. take (length w) s = w) ps of None \<Rightarrow> 0 | Some w \<Rightarrow> length w)"

function strip :: "string list \<Rightarrow> string \<Rightarrow> string" where
  "strip ps s = (if match_len ps s = 0 then s else strip ps (drop (match_len ps s) s))"
  by pat_completeness auto
termination
proof (relation "measure (\<lambda>(ps, s). length s)")
  show "wf (measure (\<lambda>(ps, s). length s))" by simp
next
  fix ps :: "string list" and s :: string
  assume m: "match_len ps s \<noteq> 0"
  then obtain w where f: "find (\<lambda>w. take (length w) s = w) ps = Some w"
    and w: "match_len ps s = length w"
    by (cases "find (\<lambda>w. take (length w) s = w) ps") (auto simp: match_len_def)
  from f have "take (length w) s = w" by (metis (mono_tags, lifting) find_Some_iff)
  then have "length (take (length w) s) = length w" by simp
  then have "length w \<le> length s" by simp
  moreover from m w have "0 < length w" by simp
  ultimately have "length s - length w < length s" by arith
  with w show "((ps, drop (match_len ps s) s), (ps, s)) \<in> measure (\<lambda>(ps, s). length s)"
    by simp
qed

declare strip.simps [simp del]

definition TrimLeft :: "string \<Rightarrow> string" where
  "TrimLeft s = strip space_runes s"

definition TrimRight :: "string \<Rightarrow> string" where
  "TrimRight s = rev (strip (map rev space_runes) (rev s))"

definition TrimSpace :: "string \<Rightarrow> string" where
  "TrimSpace s = TrimRight (TrimLeft s)"

text \<open>No pattern of \<open>ps\<close> is empty or a proper prefix of another one.\<close>

definition prefix_free :: "string list \<Rightarrow> bool" where
  "prefix_free ps \<longleftrightarrow>
     list_all (\<lambda>w. w \<noteq> [] \<and> list_all (\<lambda>w'. \<not> prefix w' w \<or> w' = w) ps) ps"

text \<open>\<^verbatim>\<open>strings.Join(elems, sep)\<close>.\<close>

fun Join :: "string list \<Rightarrow> string \<Rightarrow> string" where
  "Join [] sep = []"
| "Join [x] sep = x"
| "Join (x # y # ys) sep = x @ sep @ Join (y # ys) sep"

section \<open>Wall-clock time\<close>

text \<open>
  \<^verbatim>\<open>time.Now().Format("15:04:05")\<close>: hour, minute and second of the wall clock, each
  as two decimal digits. The reading of the clock is an input of the model.
\<close>

record clock =
  hour :: nat
  minute :: nat
  second :: nat

definition digit :: "nat \<Rightarrow> char" where
  "digit n = ''0123456789'' ! (n mod 10)"

definition two_digits :: "nat \<Rightarrow> string" where
  "two_digits n = [digit (n div 10), digit n]"

definition Format :: "clock \<Rightarrow> string" where
  "Format t = two_digits (hour t) @ '':'' @ two_digits (minute t) @ '':'' @ two_digits (second t)"

section \<open>Clients and events\<close>

text \<open>
  \<^verbatim>\<open>type Client struct { conn net.Conn; name string; messages chan string }\<close>.
  A \<^verbatim>\<open>*Client\<close> is identified by the connection it was created for (each accepted
  connection gets one client, with a channel of its own); the contents of the channel
  and the state of the connection are mutable and live in the state below.
\<close>

record client =
  conn :: nat
  name :: string

text \<open>What travels on \<^verbatim>\<open>server.register\<close>, \<^verbatim>\<open>server.unregister\<close> and \<^verbatim>\<open>server.broadcast\<close>.\<close>

datatype event = Register client | Unregister client | Broadcast string

section \<open>The inbound pump\<close>

text \<open>
  One \<^verbatim>\<open>reader.ReadString('\n')\<close> of \<^verbatim>\<open>readPump\<close>: an error, or the line read (with
  its delimiter) together with the clock's reading at that moment.
\<close>

datatype read_result = ReadError | Line clock string

text \<open>
  The loop of \<^verbatim>\<open>readPump\<close> over the successive reads: the events it sends, in order,
  and whether the loop was left (by \<^verbatim>\<open>break\<close>). When the reads run out the pump is
  waiting for the next line.
\<close>

fun readLoop :: "client \<Rightarrow> read_result list \<Rightarrow> event list \<times> bool" where
  "readLoop c [] = ([], False)"
| "readLoop c (ReadError # rs) = ([], True)"
| "readLoop c (Line t raw # rs) =
     (let message = TrimSpace raw in
      if message = ''exit'' then ([], True)
      else if length message > 0 then
        (let formattedMsg = ''['' @ Format t @ ''] '' @ name c @ '': '' @ message;
             (evs, left) = readLoop c rs
         in (Broadcast formattedMsg # evs, left))
      else readLoop c rs)"

text \<open>The deferred \<^verbatim>\<open>server.unregister <- client\<close> runs when the loop is left.\<close>

definition readPump :: "client \<Rightarrow> read_result list \<Rightarrow> event list" where
  "readPump c rs = (case readLoop c rs of (evs, left) \<Rightarrow> if left then evs @ [Unregister c] else evs)"

section \<open>The state of the server\<close>

text \<open>
  \<^verbatim>\<open>server.clients\<close> is a Go map used as a finite set of clients. Beside it the state
  holds, for every client, what \<^verbatim>\<open>client.messages\<close> (a channel of capacity 256)
  buffers, whether that channel has been closed, and how many times
  \<^verbatim>\<open>client.conn.Close()\<close> has been called.
\<close>

record server =
  clients :: "client fset"
  messages :: "client \<Rightarrow> string list"
  chan_closed :: "client \<Rightarrow> bool"
  conn_closes :: "client \<Rightarrow> nat"

definition MAX_CLIENTS :: nat where
  "MAX_CLIENTS = 50"

text \<open>The run-time panics of channel operations.\<close>

datatype panic = SendOnClosedChannel | CloseOfClosedChannel

text \<open>
  A \<^verbatim>\<open>for client := range server.clients\<close> visits every key once, in an order that Go
  leaves open. Each loop over the map therefore takes the order of its visit as an
  argument, an enumeration of the keys.
\<close>

definition enumerates :: "client list \<Rightarrow> client fset \<Rightarrow> bool" where
  "enumerates ord S \<longleftrightarrow> distinct ord \<and> fset_of_list ord = S"

section \<open>The dispatch engine\<close>

text \<open>
  \<^verbatim>\<open>delete(server.clients, client); close(client.messages); client.conn.Close()\<close>:
  closing a channel that is closed already panics, before the connection is touched.
\<close>

definition teardown :: "client \<Rightarrow> server \<Rightarrow> panic + server" where
  "teardown c s =
     (if chan_closed s c then Inl CloseOfClosedChannel
      else Inr (s\<lparr>clients := clients s |-| {|c|},
                  chan_closed := (chan_closed s)(c := True),
                  conn_closes := (conn_closes s)(c := Suc (conn_closes s c))\<rparr>))"

text \<open>
  \<^verbatim>\<open>sendUserList\<close>: the texts it sends on \<^verbatim>\<open>server.broadcast\<close>, for the order \<open>ord\<close>
  in which its loop visits the clients.
\<close>

definition sendUserList :: "client list \<Rightarrow> string list" where
  "sendUserList ord =
     (let users = map name ord in
      if length users > 0 then [''*** Online users: '' @ Join users '', '' @ '' ***''] else [])"

definition joinMsg :: "client \<Rightarrow> string" where
  "joinMsg c = ''*** '' @ name c @ '' has joined the chat ***''"

definition leaveMsg :: "client \<Rightarrow> string" where
  "leaveMsg c = ''*** '' @ name c @ '' has left the chat ***''"

text \<open>Lines 48 to 50 of \<^verbatim>\<open>run\<close>: \<^verbatim>\<open>server.clients[client] = true\<close>.\<close>

definition add_client :: "client \<Rightarrow> server \<Rightarrow> server" where
  "add_client c s = s\<lparr>clients := finsert c (clients s)\<rparr>"

text \<open>
  The loop of the broadcast case. The \<^verbatim>\<open>select\<close> with a \<^verbatim>\<open>default\<close> sends when the
  buffer has room and otherwise removes the client; a send on a closed channel panics.
\<close>

fun deliver :: "string \<Rightarrow> client list \<Rightarrow> server \<Rightarrow> panic + server" where
  "deliver m [] s = Inr s"
| "deliver m (c # cs) s =
     (if chan_closed s c then Inl SendOnClosedChannel
      else if length (messages s c) < 256 then
        deliver m cs (s\<lparr>messages := (messages s)(c := messages s c @ [m])\<rparr>)
      else (case teardown c s of Inl p \<Rightarrow> Inl p | Inr s' \<Rightarrow> deliver m cs s'))"

text \<open>
  The three cases of the \<^verbatim>\<open>select\<close> in \<^verbatim>\<open>run\<close>, each with the order of the map loop
  it runs: the state it leaves, and the texts it sends on \<^verbatim>\<open>server.broadcast\<close>,
  in program order.
\<close>

fun dispatch :: "event \<Rightarrow> client list \<Rightarrow> server \<Rightarrow> panic + server \<times> string list" where
  "dispatch (Register c) ord s = Inr (add_client c s, joinMsg c # sendUserList ord)"
| "dispatch (Unregister c) ord s =
     (case (if c |\<in>| clients s then teardown c s else Inr s) of
        Inl p \<Rightarrow> Inl p
      | Inr s' \<Rightarrow> Inr (s', leaveMsg c # sendUserList ord))"
| "dispatch (Broadcast m) ord s =
     (case deliver m ord s of Inl p \<Rightarrow> Inl p | Inr s' \<Rightarrow> Inr (s', []))"

text \<open>The set of clients that the map loop of a case ranges over.\<close>

fun ranged :: "event \<Rightarrow> server \<Rightarrow> client fset" where
  "ranged (Register c) s = finsert c (clients s)"
| "ranged (Unregister c) s = clients s |-| {|c|}"
| "ranged (Broadcast m) s = clients s"

text \<open>
  \<^verbatim>\<open>server.broadcast\<close> is made by \<^verbatim>\<open>make(chan string)\<close>: it has no buffer, so a send
  on it completes only when another goroutine is receiving. The only receive from
  \<^verbatim>\<open>server.broadcast\<close> in the program is the third case of the \<^verbatim>\<open>select\<close> of \<^verbatim>\<open>run\<close>
  itself. A send that \<^verbatim>\<open>run\<close> makes from inside a case therefore never completes: the
  goroutine stays at its first send, after the changes to the state that precede it.
\<close>

datatype engine = Selecting server | Sending server string | Crashed panic

definition run_event :: "event \<Rightarrow> client list \<Rightarrow> server \<Rightarrow> engine" where
  "run_event ev ord s =
     (case dispatch ev ord s of
        Inl p \<Rightarrow> Crashed p
      | Inr (s', []) \<Rightarrow> Selecting s'
      | Inr (s', m # ms) \<Rightarrow> Sending s' m)"

fun run :: "(event \<times> client list) list \<Rightarrow> engine \<Rightarrow> engine" where
  "run [] e = e"
| "run ((ev, ord) # evs) (Selecting s) = run evs (run_event ev ord s)"
| "run ((ev, ord) # evs) (Sending s m) = Sending s m"
| "run ((ev, ord) # evs) (Crashed p) = Crashed p"

section \<open>The outbound pump\<close>

text \<open>A receive from \<^verbatim>\<open>client.messages\<close> that finds a buffered text takes the oldest.\<close>

definition recv :: "client \<Rightarrow> server \<Rightarrow> server" where
  "recv c s = s\<lparr>messages := (messages s)(c := tl (messages s c))\<rparr>"

definition close_conn :: "client \<Rightarrow> server \<Rightarrow> server" where
  "close_conn c s = s\<lparr>conn_closes := (conn_closes s)(c := Suc (conn_closes s c))\<rparr>"

text \<open>
  \<^verbatim>\<open>writePump\<close>, over the outcomes of its successive \<^verbatim>\<open>conn.Write\<close> calls (a write to a
  connection that has been closed fails). It returns through the deferred
  \<^verbatim>\<open>client.conn.Close()\<close> when the channel is closed and empty or when a write fails;
  on an empty open channel it waits.
\<close>

fun writePump :: "client \<Rightarrow> bool list \<Rightarrow> server \<Rightarrow> server" where
  "writePump c [] s =
     (if messages s c = [] \<and> chan_closed s c then close_conn c s else s)"
| "writePump c (ok # oks) s =
     (if messages s c = [] then (if chan_closed s c then close_conn c s else s)
      else if ok \<and> conn_closes s c = 0 then writePump c oks (recv c s)
      else close_conn c (recv c s))"

section \<open>The connection acceptor\<close>

text \<open>What \<^verbatim>\<open>handleClient\<close> does to the outside, in program order.\<close>

datatype action =
    ConnWrite string
  | ConnClose
  | SendRegister client
  | SendWelcome client string
  | GoWritePump client
  | GoReadPump client

definition welcomeMsg :: "string \<Rightarrow> string" where
  "welcomeMsg nm =
     ''=== Welcome to Go Chat Server ==='' @ [CHR 0x0A] @ ''Your username: '' @ nm @ [CHR 0x0A] @
     ''Type 'exit' to quit'' @ [CHR 0x0A] @ ''==================================='' @
     [CHR 0x0A, CHR 0x0A]"

text \<open>
  \<^verbatim>\<open>handleClient\<close> for the connection \<open>cn\<close>; \<open>reply\<close> is the result of reading the
  username (\<open>None\<close> for a read error) and \<open>s\<close> the state at the moment of the check of
  the number of clients. After starting the pumps the function waits in
  \<^verbatim>\<open>select {}\<close> forever, so its deferred \<^verbatim>\<open>conn.Close()\<close> runs on the early returns only.
\<close>

definition handleClient :: "nat \<Rightarrow> string option \<Rightarrow> server \<Rightarrow> action list" where
  "handleClient cn reply s =
     ConnWrite ''Enter your username: '' #
     (case reply of
        None \<Rightarrow> [ConnClose]
      | Some raw \<Rightarrow>
          (let nm = TrimSpace raw in
           if length nm < 2 \<or> length nm > 32 then
             [ConnWrite (''Username must be 2-32 characters.'' @ [CHR 0x0A]), ConnClose]
           else
             (let c = \<lparr>conn = cn, name = nm\<rparr>; clientCount = fcard (clients s) in
              if clientCount \<ge> MAX_CLIENTS then
                [ConnWrite (''Server is full. Try again later.'' @ [CHR 0x0A]), ConnClose]
              else [SendRegister c, SendWelcome c (welcomeMsg nm), GoWritePump c, GoReadPump c])))"

fun registers :: "action list \<Rightarrow> client list" where
  "registers [] = []"
| "registers (SendRegister c # as) = c # registers as"
| "registers (a # as) = registers as"

text \<open>
  The sequential case of a handshake: nothing else runs between the check of the number
  of clients and the engine's receipt of the \<^verbatim>\<open>Register\<close> that \<^verbatim>\<open>handleClient\<close> sends.
\<close>

definition handshake :: "nat \<Rightarrow> string option \<Rightarrow> server \<Rightarrow> server" where
  "handshake cn reply s = fold add_client (registers (handleClient cn reply s)) s"

section \<open>Traces\<close>

text \<open>
  A step of the system as far as the state is concerned: the engine takes an event
  (with the order of its map loop) and runs its case, or an outbound pump takes a text
  from its client's channel.
\<close>

datatype step = Consume event "client list" | Drain client

fun process :: "step list \<Rightarrow> server \<Rightarrow> panic + server" where
  "process [] s = Inr s"
| "process (Drain c # tr) s = process tr (recv c s)"
| "process (Consume ev ord # tr) s =
     (case dispatch ev ord s of Inl p \<Rightarrow> Inl p | Inr (s', out) \<Rightarrow> process tr s')"

text \<open>Every map loop of the trace visits the keys of the map as it is then.\<close>

fun orders_ok :: "step list \<Rightarrow> server \<Rightarrow> bool" where
  "orders_ok [] s = True"
| "orders_ok (Drain c # tr) s = orders_ok tr (recv c s)"
| "orders_ok (Consume ev ord # tr) s =
     (enumerates ord (ranged ev s) \<and>
      (case dispatch ev ord s of Inl p \<Rightarrow> True | Inr (s', out) \<Rightarrow> orders_ok tr s'))"

text \<open>The texts of the \<^verbatim>\<open>Broadcast\<close> events of a trace, in the order the engine takes them.\<close>

fun broadcasts :: "step list \<Rightarrow> string list" where
  "broadcasts [] = []"
| "broadcasts (Consume (Broadcast m) ord # tr) = m # broadcasts tr"
| "broadcasts (x # tr) = broadcasts tr"

text \<open>In a well-formed state the channel of every member is open.\<close>

definition wf_server :: "server \<Rightarrow> bool" where
  "wf_server s \<longleftrightarrow> fBall (clients s) (\<lambda>c. \<not> chan_closed s c)"

text \<open>
  What the loop of the broadcast case amounts to, client by client, when it visits the
  clients of \<open>ord\<close>: a client whose buffer has room gets the text, a client whose buffer
  is full is removed, its channel closed and its connection closed.
\<close>

definition full :: "server \<Rightarrow> client \<Rightarrow> bool" where
  "full s c \<longleftrightarrow> \<not> length (messages s c) < 256"

definition fan_out :: "string \<Rightarrow> client list \<Rightarrow> server \<Rightarrow> server" where
  "fan_out m ord s =
     s\<lparr>clients := clients s |-| fset_of_list (filter (full s) ord),
       messages := (\<lambda>d. if d \<in> set ord \<and> \<not> full s d then messages s d @ [m] else messages s d),
       chan_closed := (\<lambda>d. chan_closed s d \<or> (d \<in> set ord \<and> full s d)),
       conn_closes := (\<lambda>d. if d \<in> set ord \<and> full s d then Suc (conn_closes s d) else conn_closes s d)\<rparr>"

text \<open>\<^verbatim>\<open>NewChatServer\<close>: no clients; no channel closed and no connection closed yet.\<close>

definition NewChatServer :: server where
  "NewChatServer =
     \<lparr>clients = {||}, messages = (\<lambda>c. []), chan_closed = (\<lambda>c. False), conn_closes = (\<lambda>c. 0)\<rparr>"

text \<open>
  The engine's bookkeeping of a connection: closed once if the client's channel has been
  closed, and not at all otherwise.
\<close>

definition closed_once :: "server \<Rightarrow> client \<Rightarrow> bool" where
  "closed_once s c \<longleftrightarrow> (if chan_closed s c then conn_closes s c = 1 else conn_closes s c = 0)"

text \<open>The text at whose send the engine stands, if it stands at one.\<close>

fun sending :: "engine \<Rightarrow> string option" where
  "sending (Sending s m) = Some m"
| "sending (Selecting s) = None"
| "sending (Crashed p) = None"

text \<open>
  The number of characters of a UTF-8 text, the unit in which the specification states
  the bounds on a username: every byte that is not a continuation byte (\<^verbatim>\<open>10xxxxxx\<close>)
  starts one. \<^verbatim>\<open>len\<close> counts bytes instead, so the two differ outside ASCII.
\<close>

definition characters :: "string \<Rightarrow> nat" where
  "characters s = length (filter (\<lambda>b. \<not> (0x80 \<le> (of_char b :: nat) \<and> (of_char b :: nat) < 0xC0)) s)"

section \<open>Example states\<close>

text \<open>A server with \<open>n\<close> clients, all channels open and empty, no connection closed.\<close>

definition crowd :: "nat \<Rightarrow> server" where
  "crowd n =
     \<lparr>clients = fset_of_list (map (\<lambda>i. \<lparr>conn = i, name = ''user''\<rparr>) [0..<n]),
      messages = (\<lambda>c. []), chan_closed = (\<lambda>c. False), conn_closes = (\<lambda>c. 0)\<rparr>"

text \<open>Three clients, a server with the first two, and the same with the first one's buffer full.\<close>

definition al :: client where "al = \<lparr>conn = 1, name = ''al''\<rparr>"

definition bo :: client where "bo = \<lparr>conn = 2, name = ''bo''\<rparr>"

definition cy :: client where "cy = \<lparr>conn = 3, name = ''cy''\<rparr>"

definition duo :: server where
  "duo = \<lparr>clients = {|al, bo|}, messages = (\<lambda>c. []), chan_closed = (\<lambda>c. False),
          conn_closes = (\<lambda>c. 0)\<rparr>"

definition packed :: server where
  "packed = duo\<lparr>messages := (\<lambda>c. if c = al then replicate 256 ''m'' else [])\<rparr>"

section \<open>Trimming\<close>

lemma prefix_free_space: "prefix_free space_runes"
  by code_simp

lemma prefix_free_space_rev: "prefix_free (map rev space_runes)"
  by code_simp

lemma find_SomeD: "find P xs = Some x \<Longrightarrow> x \<in> set xs \<and> P x"
  by (induction xs) (auto split: if_splits)

lemma match_len_le: "match_len ps s \<le> length s"
proof (cases "find (\<lambda>w. take (length w) s = w) ps")
  case None
  then show ?thesis by (simp add: match_len_def)
next
  case (Some w)
  from find_SomeD [OF Some] have "length (take (length w) s) = length w" by simp
  then have "length w \<le> length s" by simp
  with Some show ?thesis by (simp add: match_len_def)
qed

lemma take_prefix: "take (length w) x = w \<longleftrightarrow> prefix w x"
  by (metis append_eq_conv_conj prefix_def)

lemma match_len_hit:
  assumes pf: "prefix_free ps" and w: "w \<in> set ps"
  shows "match_len ps (w @ s) = length w"
proof -
  have "take (length w) (w @ s) = w" by simp
  with w obtain v where f: "find (\<lambda>v. take (length v) (w @ s) = v) ps = Some v"
    by (cases "find (\<lambda>v. take (length v) (w @ s) = v) ps") (auto simp: find_None_iff)
  from find_SomeD [OF f] have v: "v \<in> set ps" and pv: "prefix v (w @ s)"
    by (simp_all only: take_prefix)
  have "prefix w (w @ s)" by simp
  with pv have "prefix v w \<or> prefix w v" by (rule prefix_same_cases)
  with pf v w have "v = w" by (auto simp: prefix_free_def list_all_iff)
  with f show ?thesis by (simp add: match_len_def)
qed

lemma strip_hit:
  assumes "prefix_free ps" and "w \<in> set ps"
  shows "strip ps (w @ s) = strip ps s"
proof -
  have m: "match_len ps (w @ s) = length w" using assms by (rule match_len_hit)
  moreover have "w \<noteq> []" using assms by (auto simp: prefix_free_def list_all_iff)
  ultimately show ?thesis by (subst strip.simps) simp
qed

lemma strip_concat:
  assumes "prefix_free ps" and "set ws \<subseteq> set ps"
  shows "strip ps (concat ws @ s) = strip ps s"
  using assms(2) by (induction ws) (simp_all add: strip_hit [OF assms(1)])

lemma strip_Nil: "strip ps [] = []"
  using match_len_le [of ps "[]"] by (subst strip.simps) simp

lemma TrimSpace_only_space:
  assumes "set ws \<subseteq> set space_runes"
  shows "TrimSpace (concat ws) = []"
  using strip_concat [OF prefix_free_space assms, of "[]"]
  by (simp add: TrimSpace_def TrimLeft_def TrimRight_def strip_Nil)

lemma strip_decomp: "\<exists>ws. set ws \<subseteq> set ps \<and> s = concat ws @ strip ps s"
proof (induction ps s rule: strip.induct)
  case (1 ps s)
  show ?case
  proof (cases "match_len ps s = 0")
    case True
    then have "strip ps s = s" by (subst strip.simps) simp
    then have "set [] \<subseteq> set ps \<and> s = concat [] @ strip ps s" by simp
    then show ?thesis by blast
  next
    case False
    then obtain w where f: "find (\<lambda>w. take (length w) s = w) ps = Some w"
      by (cases "find (\<lambda>w. take (length w) s = w) ps") (auto simp: match_len_def)
    from find_SomeD [OF f] have w: "w \<in> set ps" and t: "take (length w) s = w" by simp_all
    from f have m: "match_len ps s = length w" by (simp add: match_len_def)
    from 1 [OF False] obtain ws where ws: "set ws \<subseteq> set ps"
      and eq: "drop (match_len ps s) s = concat ws @ strip ps (drop (match_len ps s) s)" by blast
    have st: "strip ps s = strip ps (drop (match_len ps s) s)"
      using False by (subst strip.simps) simp
    have "s = take (length w) s @ drop (length w) s" by simp
    also have "\<dots> = w @ concat ws @ strip ps s" using t eq m st by simp
    finally have "s = concat (w # ws) @ strip ps s" by simp
    moreover have "set (w # ws) \<subseteq> set ps" using w ws by simp
    ultimately show ?thesis by blast
  qed
qed

lemma match_len_strip: "match_len ps (strip ps s) = 0"
proof (induction ps s rule: strip.induct)
  case (1 ps s)
  show ?case
  proof (cases "match_len ps s = 0")
    case True
    then show ?thesis by (subst strip.simps) simp
  next
    case False
    with 1 show ?thesis by (subst strip.simps) simp
  qed
qed


lemma match_len_0D:
  assumes "prefix_free ps" and "match_len ps s = 0" and "w \<in> set ps"
  shows "\<not> prefix w s"
proof
  assume "prefix w s"
  then have "take (length w) s = w" by (simp only: take_prefix)
  with assms(3) obtain v where f: "find (\<lambda>v. take (length v) s = v) ps = Some v"
    by (cases "find (\<lambda>v. take (length v) s = v) ps") (auto simp: find_None_iff)
  with assms(2) have "v = []" by (simp add: match_len_def)
  moreover from find_SomeD [OF f] have "v \<in> set ps" by simp
  ultimately show False using assms(1) by (auto simp: prefix_free_def list_all_iff)
qed

lemma TrimSpace_decomp:
  "\<exists>ws1 ws2. set ws1 \<subseteq> set space_runes \<and> set ws2 \<subseteq> set space_runes \<and>
     raw = concat ws1 @ TrimSpace raw @ concat ws2"
proof -
  obtain ws1 where 1: "set ws1 \<subseteq> set space_runes" "raw = concat ws1 @ TrimLeft raw"
    using strip_decomp [of space_runes raw] by (auto simp: TrimLeft_def)
  obtain vs where 2: "set vs \<subseteq> set (map rev space_runes)"
      "rev (TrimLeft raw) = concat vs @ strip (map rev space_runes) (rev (TrimLeft raw))"
    using strip_decomp [of "map rev space_runes" "rev (TrimLeft raw)"] by auto
  from 2(2) have "TrimLeft raw = rev (concat vs @ strip (map rev space_runes) (rev (TrimLeft raw)))"
    by (metis rev_rev_ident)
  then have 3: "TrimLeft raw = TrimSpace raw @ concat (rev (map rev vs))"
    by (simp add: TrimSpace_def TrimRight_def rev_concat rev_map)
  have "set (rev (map rev vs)) \<subseteq> set space_runes"
    using 2(1) by (auto simp: rev_map)
  with 1 3 show ?thesis by metis
qed

lemma TrimSpace_trimmed:
  assumes "w \<in> set space_runes"
  shows "\<not> prefix w (TrimSpace raw) \<and> \<not> suffix w (TrimSpace raw)"
proof
  obtain ws2 where t: "TrimLeft raw = TrimSpace raw @ ws2"
    using strip_decomp [of "map rev space_runes" "rev (TrimLeft raw)"]
    by (metis TrimSpace_def TrimRight_def rev_append rev_rev_ident)
  have "\<not> prefix w (TrimLeft raw)"
    using prefix_free_space match_len_strip assms unfolding TrimLeft_def by (rule match_len_0D)
  then show "\<not> prefix w (TrimSpace raw)" using t by (metis prefix_prefix)
  have "rev w \<in> set (map rev space_runes)" using assms by simp
  with prefix_free_space_rev match_len_strip
  have "\<not> prefix (rev w) (strip (map rev space_runes) (rev (TrimLeft raw)))" by (rule match_len_0D)
  then show "\<not> suffix w (TrimSpace raw)"
    by (simp add: TrimSpace_def TrimRight_def suffix_to_prefix)
qed


section \<open>The inbound pump: what a line sends\<close>

lemma readPump_Line:
  "readPump c (Line t raw # rs) =
     (if TrimSpace raw = ''exit'' then [Unregister c]
      else if TrimSpace raw = [] then readPump c rs
      else Broadcast (''['' @ Format t @ ''] '' @ name c @ '': '' @ TrimSpace raw) # readPump c rs)"
  by (simp add: readPump_def Let_def split: prod.splits)

text \<open>
  Claim C10. The inbound pump interprets every received line after
  \<^verbatim>\<open>strings.TrimSpace\<close>. The trimmed content is the line without a leading and a
  trailing run of white-space runes, and has no white-space rune at either end. A line
  made of white space only sends nothing, as an empty line does; a line whose trimmed
  content is \<^verbatim>\<open>exit\<close> (such as \<^verbatim>\<open>"  exit  "\<close>) ends the loop with nothing but the
  \<^verbatim>\<open>Unregister\<close>; and for any other line the text broadcast carries the trimmed
  content, not the raw line.
\<close>

theorem readPump_trims_received_line:
  "(\<exists>ws1 ws2. set ws1 \<subseteq> set space_runes \<and> set ws2 \<subseteq> set space_runes \<and>
      raw = concat ws1 @ TrimSpace raw @ concat ws2) \<and>
   (\<forall>w \<in> set space_runes. \<not> prefix w (TrimSpace raw) \<and> \<not> suffix w (TrimSpace raw)) \<and>
   (set ws \<subseteq> set space_runes \<longrightarrow> readPump c (Line t (concat ws) # rs) = readPump c rs) \<and>
   (TrimSpace raw = ''exit'' \<longrightarrow> readPump c (Line t raw # rs) = [Unregister c]) \<and>
   TrimSpace ''  exit  '' = ''exit'' \<and>
   (TrimSpace raw \<noteq> ''exit'' \<and> TrimSpace raw \<noteq> [] \<longrightarrow>
      readPump c (Line t raw # rs) =
        Broadcast (''['' @ Format t @ ''] '' @ name c @ '': '' @ TrimSpace raw) # readPump c rs)"
proof -
  have "TrimSpace ''  exit  '' = ''exit''" by code_simp
  then show ?thesis
    using TrimSpace_decomp [of raw] TrimSpace_trimmed [of _ raw] TrimSpace_only_space [of ws]
    by (simp add: readPump_Line)
qed

theorem readPump_trims_received_line_witness:
  "set [[CHR 0x20], [CHR 0x09]] \<subseteq> set space_runes \<and>
   readPump \<lparr>conn = 1, name = ''al''\<rparr>
     [Line \<lparr>hour = 14, minute = 5, second = 9\<rparr> (concat [[CHR 0x20], [CHR 0x09]])] = [] \<and>
   TrimSpace (''  exit  '' @ [CHR 0x0D, CHR 0x0A]) = ''exit'' \<and>
   readPump \<lparr>conn = 1, name = ''al''\<rparr>
     [Line \<lparr>hour = 14, minute = 5, second = 9\<rparr> (''  exit  '' @ [CHR 0x0D, CHR 0x0A]),
      Line \<lparr>hour = 14, minute = 5, second = 10\<rparr> (''more'' @ [CHR 0x0A])]
     = [Unregister \<lparr>conn = 1, name = ''al''\<rparr>] \<and>
   TrimSpace (''  hi  '' @ [CHR 0x0A]) = ''hi'' \<and>
   readPump \<lparr>conn = 1, name = ''al''\<rparr>
     [Line \<lparr>hour = 14, minute = 5, second = 9\<rparr> (''  hi  '' @ [CHR 0x0A])]
     = [Broadcast ''[14:05:09] al: hi'']"
proof -
  let ?c = "\<lparr>conn = 1, name = ''al''\<rparr>"
  let ?t = "\<lparr>hour = 14, minute = 5, second = 9\<rparr>"
  have ws: "set [[CHR 0x20], [CHR 0x09]] \<subseteq> set space_runes" by (simp add: space_runes_def)
  have ex: "TrimSpace (''  exit  '' @ [CHR 0x0D, CHR 0x0A]) = ''exit''" by code_simp
  have hi: "TrimSpace (''  hi  '' @ [CHR 0x0A]) = ''hi''" by code_simp
  have fm: "Format ?t = ''14:05:09''" by (simp add: Format_def two_digits_def digit_def)
  have e: "readPump ?c [] = []" by (simp add: readPump_def)
  note T = readPump_trims_received_line
  have 1: "readPump ?c [Line ?t (concat [[CHR 0x20], [CHR 0x09]])] = []"
    using T [of _ "[[CHR 0x20], [CHR 0x09]]" ?c ?t "[]"] ws e by simp
  have 2: "readPump ?c [Line ?t (''  exit  '' @ [CHR 0x0D, CHR 0x0A]),
      Line \<lparr>hour = 14, minute = 5, second = 10\<rparr> (''more'' @ [CHR 0x0A])] = [Unregister ?c]"
    using T [of "''  exit  '' @ [CHR 0x0D, CHR 0x0A]" _ ?c ?t] ex by blast
  have 3: "readPump ?c [Line ?t (''  hi  '' @ [CHR 0x0A])] = [Broadcast ''[14:05:09] al: hi'']"
    using T [of "''  hi  '' @ [CHR 0x0A]" _ ?c ?t "[]"] hi fm e by simp
  from ws 1 ex 2 hi 3 show ?thesis by blast
qed

text \<open>
  Claim C4, as amended. For every line received from a client named \<open>n\<close>, with \<open>t\<close>
  the content of the line after trimming: if \<open>t\<close> is \<^verbatim>\<open>exit\<close> the pump stops, sending
  no \<^verbatim>\<open>Broadcast\<close> and exactly one \<^verbatim>\<open>Unregister\<close> for its client; if \<open>t\<close> is empty the
  line sends nothing; otherwise the line sends exactly one \<^verbatim>\<open>Broadcast\<close>, with the text
  \<^verbatim>\<open>[HH:MM:SS] n: t\<close> for the clock's reading at receipt.
\<close>

theorem readPump_interprets_trimmed_line:
  "readPump c (Line t raw # rs) =
     (if TrimSpace raw = ''exit'' then [Unregister c]
      else if TrimSpace raw = [] then readPump c rs
      else Broadcast (''['' @ Format t @ ''] '' @ name c @ '': '' @ TrimSpace raw) # readPump c rs)"
  by (rule readPump_Line)

text \<open>
  Claim C4 as stated speaks of the line itself. The line \<^verbatim>\<open>"  hi  "\<close> is neither empty
  nor \<^verbatim>\<open>exit\<close>, and the text broadcast for it is not \<^verbatim>\<open>[14:05:09] al:   hi  \<close>; the
  line \<^verbatim>\<open>"   "\<close> is not empty, and no event is sent for it.
\<close>

theorem readPump_raw_line_counterexample:
  "readPump \<lparr>conn = 1, name = ''al''\<rparr>
     [Line \<lparr>hour = 14, minute = 5, second = 9\<rparr> (''  hi  '' @ [CHR 0x0A])]
     = [Broadcast ''[14:05:09] al: hi''] \<and>
   readPump \<lparr>conn = 1, name = ''al''\<rparr>
     [Line \<lparr>hour = 14, minute = 5, second = 9\<rparr> (''  hi  '' @ [CHR 0x0A])]
     \<noteq> [Broadcast ''[14:05:09] al:   hi  ''] \<and>
   readPump \<lparr>conn = 1, name = ''al''\<rparr>
     [Line \<lparr>hour = 14, minute = 5, second = 9\<rparr> (''   '' @ [CHR 0x0A])] = []"
proof -
  have hi: "TrimSpace (''  hi  '' @ [CHR 0x0A]) = ''hi''" by code_simp
  have sp: "TrimSpace (''   '' @ [CHR 0x0A]) = []" by code_simp
  have fm: "Format \<lparr>hour = 14, minute = 5, second = 9\<rparr> = ''14:05:09''"
    by (simp add: Format_def two_digits_def digit_def)
  have e: "readPump \<lparr>conn = 1, name = ''al''\<rparr> [] = []" by (simp add: readPump_def)
  show ?thesis using hi sp fm e by (simp add: readPump_Line)
qed

section \<open>The connection acceptor: name and capacity checks\<close>

lemma fcard_crowd: "fcard (clients (crowd n)) = n"
proof -
  have "distinct (map (\<lambda>i. \<lparr>conn = i, name = ''user''\<rparr>) [0..<n])"
    by (simp add: distinct_map inj_on_def)
  then have "card (set (map (\<lambda>i. \<lparr>conn = i, name = ''user''\<rparr>) [0..<n])) = n"
    by (simp only: distinct_card length_map length_upt diff_zero)
  then show ?thesis
    by (simp add: crowd_def fcard.rep_eq fset_of_list.rep_eq)
qed

lemma handleClient_bad_name:
  assumes "length (TrimSpace raw) < 2 \<or> 32 < length (TrimSpace raw)"
  shows "handleClient cn (Some raw) s =
     [ConnWrite ''Enter your username: '',
      ConnWrite (''Username must be 2-32 characters.'' @ [CHR 0x0A]), ConnClose]"
  using assms by (simp add: handleClient_def Let_def)

lemma handleClient_full:
  assumes "2 \<le> length (TrimSpace raw)" and "length (TrimSpace raw) \<le> 32"
    and "MAX_CLIENTS \<le> fcard (clients s)"
  shows "handleClient cn (Some raw) s =
     [ConnWrite ''Enter your username: '',
      ConnWrite (''Server is full. Try again later.'' @ [CHR 0x0A]), ConnClose]"
  using assms by (simp add: handleClient_def Let_def)

lemma handleClient_admits:
  assumes "2 \<le> length (TrimSpace raw)" and "length (TrimSpace raw) \<le> 32"
    and "fcard (clients s) < MAX_CLIENTS"
  shows "handleClient cn (Some raw) s =
     [ConnWrite ''Enter your username: '',
      SendRegister \<lparr>conn = cn, name = TrimSpace raw\<rparr>,
      SendWelcome \<lparr>conn = cn, name = TrimSpace raw\<rparr> (welcomeMsg (TrimSpace raw)),
      GoWritePump \<lparr>conn = cn, name = TrimSpace raw\<rparr>,
      GoReadPump \<lparr>conn = cn, name = TrimSpace raw\<rparr>]"
  using assms by (simp add: handleClient_def Let_def)

lemma handleClient_cases:
  "(handleClient cn reply s = [ConnWrite ''Enter your username: '', ConnClose] \<and> reply = None) \<or>
   (\<exists>raw. reply = Some raw \<and> (length (TrimSpace raw) < 2 \<or> 32 < length (TrimSpace raw)) \<and>
      handleClient cn reply s =
        [ConnWrite ''Enter your username: '',
         ConnWrite (''Username must be 2-32 characters.'' @ [CHR 0x0A]), ConnClose]) \<or>
   (\<exists>raw. reply = Some raw \<and> 2 \<le> length (TrimSpace raw) \<and> length (TrimSpace raw) \<le> 32 \<and>
      MAX_CLIENTS \<le> fcard (clients s) \<and>
      handleClient cn reply s =
        [ConnWrite ''Enter your username: '',
         ConnWrite (''Server is full. Try again later.'' @ [CHR 0x0A]), ConnClose]) \<or>
   (\<exists>raw. reply = Some raw \<and> 2 \<le> length (TrimSpace raw) \<and> length (TrimSpace raw) \<le> 32 \<and>
      fcard (clients s) < MAX_CLIENTS \<and>
      registers (handleClient cn reply s) = [\<lparr>conn = cn, name = TrimSpace raw\<rparr>])"
proof (cases reply)
  case None
  then show ?thesis by (simp add: handleClient_def)
next
  case (Some raw)
  show ?thesis
  proof (cases "length (TrimSpace raw) < 2 \<or> 32 < length (TrimSpace raw)")
    case True
    with Some handleClient_bad_name [OF True, of cn s] show ?thesis by simp
  next
    case False
    then have v: "2 \<le> length (TrimSpace raw)" "length (TrimSpace raw) \<le> 32" by simp_all
    show ?thesis
    proof (cases "MAX_CLIENTS \<le> fcard (clients s)")
      case True
      with Some v handleClient_full [OF v True, of cn] show ?thesis by simp
    next
      case False
      then have "fcard (clients s) < MAX_CLIENTS" by simp
      with Some v handleClient_admits [OF v this, of cn] show ?thesis by simp
    qed
  qed
qed

text \<open>
  Claim C7, as amended. For every handshake reply whose length in bytes after trimming
  (what \<^verbatim>\<open>len\<close> counts at line 122) is less than 2 or greater than 32, \<^verbatim>\<open>handleClient\<close>
  writes the prompt and the line \<^verbatim>\<open>Username must be 2-32 characters.\<close>, closes the
  connection and sends no \<^verbatim>\<open>Register\<close>; the set of clients, and so its size, is as
  before.
\<close>

theorem handleClient_rejects_name_length:
  assumes "length (TrimSpace raw) < 2 \<or> 32 < length (TrimSpace raw)"
  shows "handleClient cn (Some raw) s =
           [ConnWrite ''Enter your username: '',
            ConnWrite (''Username must be 2-32 characters.'' @ [CHR 0x0A]), ConnClose] \<and>
         registers (handleClient cn (Some raw) s) = [] \<and>
         handshake cn (Some raw) s = s \<and>
         fcard (clients (handshake cn (Some raw) s)) = fcard (clients s)"
  using handleClient_bad_name [OF assms, of cn s] by (simp add: handshake_def)

theorem handleClient_rejects_name_length_witness:
  "(length (TrimSpace (''a'' @ [CHR 0x0A])) < 2 \<or> 32 < length (TrimSpace (''a'' @ [CHR 0x0A]))) \<and>
   handleClient 7 (Some (''a'' @ [CHR 0x0A])) (crowd 3) =
     [ConnWrite ''Enter your username: '',
      ConnWrite (''Username must be 2-32 characters.'' @ [CHR 0x0A]), ConnClose] \<and>
   fcard (clients (handshake 7 (Some (''a'' @ [CHR 0x0A])) (crowd 3))) = 3"
proof -
  have t: "TrimSpace (''a'' @ [CHR 0x0A]) = ''a''" by code_simp
  then have h: "length (TrimSpace (''a'' @ [CHR 0x0A])) < 2 \<or> 32 < length (TrimSpace (''a'' @ [CHR 0x0A]))"
    by simp
  from handleClient_rejects_name_length [OF h, of 7 "crowd 3"] h fcard_crowd [of 3]
  show ?thesis by simp
qed

lemma characters_le: "characters s \<le> length s"
  by (simp add: characters_def)

text \<open>
  Claim C7 as stated counts characters. The reply \<^verbatim>\<open>U+00E9\<close> (one character, the two
  bytes C3 A9) followed by a newline has a trimmed length of one character, yet its
  \<^verbatim>\<open>len\<close> is 2: it passes the check, the client is registered and started, and in the
  sequential case the set of clients grows from 3 to 4.
\<close>

theorem name_length_in_characters_counterexample:
  "characters (TrimSpace [CHR 0xC3, CHR 0xA9, CHR 0x0A]) = 1 \<and>
   length (TrimSpace [CHR 0xC3, CHR 0xA9, CHR 0x0A]) = 2 \<and>
   handleClient 7 (Some [CHR 0xC3, CHR 0xA9, CHR 0x0A]) (crowd 3) =
     [ConnWrite ''Enter your username: '',
      SendRegister \<lparr>conn = 7, name = [CHR 0xC3, CHR 0xA9]\<rparr>,
      SendWelcome \<lparr>conn = 7, name = [CHR 0xC3, CHR 0xA9]\<rparr> (welcomeMsg [CHR 0xC3, CHR 0xA9]),
      GoWritePump \<lparr>conn = 7, name = [CHR 0xC3, CHR 0xA9]\<rparr>,
      GoReadPump \<lparr>conn = 7, name = [CHR 0xC3, CHR 0xA9]\<rparr>] \<and>
   fcard (clients (crowd 3)) = 3 \<and>
   fcard (clients (handshake 7 (Some [CHR 0xC3, CHR 0xA9, CHR 0x0A]) (crowd 3))) = 4"
proof -
  let ?raw = "[CHR 0xC3, CHR 0xA9, CHR 0x0A]"
  let ?c = "\<lparr>conn = 7, name = [CHR 0xC3, CHR 0xA9]\<rparr>"
  have t: "TrimSpace ?raw = [CHR 0xC3, CHR 0xA9]" by code_simp
  have ch: "characters [CHR 0xC3, CHR 0xA9] = 1" by (simp add: characters_def)
  have v: "2 \<le> length (TrimSpace ?raw)" "length (TrimSpace ?raw) \<le> 32"
    using t by simp_all
  have n: "fcard (clients (crowd 3)) < MAX_CLIENTS" by (simp add: fcard_crowd MAX_CLIENTS_def)
  note h = handleClient_admits [OF v n, of 7]
  have "?c |\<notin>| clients (crowd 3)" by (auto simp: crowd_def fset_of_list.rep_eq)
  then have "fcard (finsert ?c (clients (crowd 3))) = 4"
    by (simp add: fcard_finsert_disjoint fcard_crowd)
  then have f: "fcard (clients (handshake 7 (Some ?raw) (crowd 3))) = 4"
    using h t by (simp add: handshake_def add_client_def)
  from t ch h f fcard_crowd [of 3] show ?thesis by simp
qed

text \<open>
  Claim C6, as amended. In the sequential case, a handshake attempted when the number
  of clients is at or above \<^const>\<open>MAX_CLIENTS\<close> (50) is closed and never registered,
  whatever the reply; when the reply has passed the length check, what it is told is the
  server-full message. Hence right after any registration the number of clients is at
  most \<^const>\<open>MAX_CLIENTS\<close>.
\<close>

theorem capacity_check:
  "(MAX_CLIENTS \<le> fcard (clients s) \<longrightarrow>
      registers (handleClient cn reply s) = [] \<and> last (handleClient cn reply s) = ConnClose \<and>
      handshake cn reply s = s) \<and>
   (MAX_CLIENTS \<le> fcard (clients s) \<and> 2 \<le> length (TrimSpace raw) \<and> length (TrimSpace raw) \<le> 32 \<longrightarrow>
      handleClient cn (Some raw) s =
        [ConnWrite ''Enter your username: '',
         ConnWrite (''Server is full. Try again later.'' @ [CHR 0x0A]), ConnClose]) \<and>
   (registers (handleClient cn reply s) \<noteq> [] \<longrightarrow>
      fcard (clients (handshake cn reply s)) \<le> MAX_CLIENTS)"
proof -
  have 1: "registers (handleClient cn reply s) = [] \<and> last (handleClient cn reply s) = ConnClose \<and>
      handshake cn reply s = s" if "MAX_CLIENTS \<le> fcard (clients s)"
    using handleClient_cases [of cn reply s] that by (auto simp: handshake_def)
  have 2: "handleClient cn (Some raw) s =
        [ConnWrite ''Enter your username: '',
         ConnWrite (''Server is full. Try again later.'' @ [CHR 0x0A]), ConnClose]"
    if "MAX_CLIENTS \<le> fcard (clients s) \<and> 2 \<le> length (TrimSpace raw) \<and> length (TrimSpace raw) \<le> 32"
    using that by (simp add: handleClient_full)
  have 3: "fcard (clients (handshake cn reply s)) \<le> MAX_CLIENTS"
    if r: "registers (handleClient cn reply s) \<noteq> []"
  proof -
    from r handleClient_cases [of cn reply s] obtain c
      where c: "registers (handleClient cn reply s) = [c]" and n: "fcard (clients s) < MAX_CLIENTS"
      by auto
    have "fcard (finsert c (clients s)) \<le> Suc (fcard (clients s))"
      by (simp add: fcard_finsert_if)
    with c n show ?thesis by (simp add: handshake_def add_client_def)
  qed
  from 1 2 3 show ?thesis by blast
qed

theorem capacity_check_witness:
  "MAX_CLIENTS \<le> fcard (clients (crowd 50)) \<and>
   2 \<le> length (TrimSpace (''al'' @ [CHR 0x0A])) \<and> length (TrimSpace (''al'' @ [CHR 0x0A])) \<le> 32 \<and>
   registers (handleClient 50 (Some (''al'' @ [CHR 0x0A])) (crowd 50)) = [] \<and>
   handleClient 50 (Some (''al'' @ [CHR 0x0A])) (crowd 50) =
     [ConnWrite ''Enter your username: '',
      ConnWrite (''Server is full. Try again later.'' @ [CHR 0x0A]), ConnClose] \<and>
   registers (handleClient 49 (Some (''al'' @ [CHR 0x0A])) (crowd 49)) \<noteq> [] \<and>
   fcard (clients (handshake 49 (Some (''al'' @ [CHR 0x0A])) (crowd 49))) \<le> MAX_CLIENTS"
proof -
  have t: "TrimSpace (''al'' @ [CHR 0x0A]) = ''al''" by code_simp
  have f: "MAX_CLIENTS \<le> fcard (clients (crowd 50))" by (simp add: fcard_crowd MAX_CLIENTS_def)
  have v: "2 \<le> length (TrimSpace (''al'' @ [CHR 0x0A]))" "length (TrimSpace (''al'' @ [CHR 0x0A])) \<le> 32"
    using t by simp_all
  have a: "registers (handleClient 49 (Some (''al'' @ [CHR 0x0A])) (crowd 49)) \<noteq> []"
    using handleClient_admits [OF v, of "crowd 49" 49] by (simp add: fcard_crowd MAX_CLIENTS_def)
  note T = capacity_check
  from T [of "crowd 50" 50 "Some (''al'' @ [CHR 0x0A])" "''al'' @ [CHR 0x0A]"] f v
  have 1: "registers (handleClient 50 (Some (''al'' @ [CHR 0x0A])) (crowd 50)) = []"
    and 2: "handleClient 50 (Some (''al'' @ [CHR 0x0A])) (crowd 50) =
     [ConnWrite ''Enter your username: '',
      ConnWrite (''Server is full. Try again later.'' @ [CHR 0x0A]), ConnClose]"
    by blast+
  from T [of "crowd 49" 49 "Some (''al'' @ [CHR 0x0A])"] a
  have 3: "fcard (clients (handshake 49 (Some (''al'' @ [CHR 0x0A])) (crowd 49))) \<le> MAX_CLIENTS"
    by blast
  from f v 1 2 a 3 show ?thesis by blast
qed

text \<open>
  Claim C6 as stated promises the server-full message to every handshake attempted at
  capacity. The length check comes first: with 50 clients, the reply \<^verbatim>\<open>a\<close> is told
  that the username must be 2-32 characters, and no server-full message is written.
\<close>

theorem capacity_check_counterexample:
  "MAX_CLIENTS \<le> fcard (clients (crowd 50)) \<and>
   handleClient 50 (Some (''a'' @ [CHR 0x0A])) (crowd 50) =
     [ConnWrite ''Enter your username: '',
      ConnWrite (''Username must be 2-32 characters.'' @ [CHR 0x0A]), ConnClose] \<and>
   ConnWrite (''Server is full. Try again later.'' @ [CHR 0x0A])
     \<notin> set (handleClient 50 (Some (''a'' @ [CHR 0x0A])) (crowd 50))"
proof -
  have t: "TrimSpace (''a'' @ [CHR 0x0A]) = ''a''" by code_simp
  then have h: "length (TrimSpace (''a'' @ [CHR 0x0A])) < 2 \<or> 32 < length (TrimSpace (''a'' @ [CHR 0x0A]))"
    by simp
  have f: "MAX_CLIENTS \<le> fcard (clients (crowd 50))" by (simp add: fcard_crowd MAX_CLIENTS_def)
  from handleClient_bad_name [OF h, of 50 "crowd 50"] f show ?thesis by simp
qed

section \<open>The broadcast loop\<close>

lemma fan_out_Nil: "fan_out m [] s = s"
  by (simp add: fan_out_def)

lemma fan_out_room:
  assumes "\<not> full s c" and "c \<notin> set cs"
  shows "fan_out m cs (s\<lparr>messages := (messages s)(c := messages s c @ [m])\<rparr>) = fan_out m (c # cs) s"
proof -
  let ?s1 = "s\<lparr>messages := (messages s)(c := messages s c @ [m])\<rparr>"
  have f: "filter (full ?s1) cs = filter (full s) cs"
    using assms(2) by (intro filter_cong) (auto simp: full_def)
  have g: "filter (full s) (c # cs) = filter (full s) cs" using assms(1) by simp
  show ?thesis
    unfolding fan_out_def f g using assms
    by (auto simp: fun_eq_iff full_def)
qed

lemma fan_out_drop:
  assumes "full s c" and "c \<notin> set cs"
  shows "fan_out m cs (s\<lparr>clients := clients s |-| {|c|},
                  chan_closed := (chan_closed s)(c := True),
                  conn_closes := (conn_closes s)(c := Suc (conn_closes s c))\<rparr>) = fan_out m (c # cs) s"
proof -
  let ?s1 = "s\<lparr>clients := clients s |-| {|c|},
                  chan_closed := (chan_closed s)(c := True),
                  conn_closes := (conn_closes s)(c := Suc (conn_closes s c))\<rparr>"
  have f: "filter (full ?s1) cs = filter (full s) cs"
    by (intro filter_cong) (auto simp: full_def)
  have g: "filter (full s) (c # cs) = c # filter (full s) cs" using assms(1) by simp
  have h: "clients s |-| {|c|} |-| fset_of_list (filter (full s) cs)
      = clients s |-| fset_of_list (c # filter (full s) cs)"
    by auto
  have "clients (fan_out m cs ?s1) = clients (fan_out m (c # cs) s)"
    unfolding fan_out_def f g using h by simp
  moreover have "messages (fan_out m cs ?s1) = messages (fan_out m (c # cs) s)"
    unfolding fan_out_def f g using assms by (auto simp: fun_eq_iff full_def)
  moreover have "chan_closed (fan_out m cs ?s1) = chan_closed (fan_out m (c # cs) s)"
    unfolding fan_out_def f g using assms by (auto simp: fun_eq_iff full_def)
  moreover have "conn_closes (fan_out m cs ?s1) = conn_closes (fan_out m (c # cs) s)"
    unfolding fan_out_def f g using assms by (auto simp: fun_eq_iff full_def)
  ultimately show ?thesis by (simp add: server.equality)
qed

lemma deliver_Inr:
  "distinct ord \<Longrightarrow> deliver m ord s = Inr s' \<Longrightarrow> s' = fan_out m ord s"
proof (induction ord arbitrary: s)
  case Nil
  then show ?case by (simp add: fan_out_Nil)
next
  case (Cons c cs)
  from Cons.prems have nc: "\<not> chan_closed s c" by (auto split: if_splits)
  from Cons.prems have d: "distinct cs" "c \<notin> set cs" by simp_all
  show ?case
  proof (cases "length (messages s c) < 256")
    case True
    with Cons.prems nc
    have "deliver m cs (s\<lparr>messages := (messages s)(c := messages s c @ [m])\<rparr>) = Inr s'" by simp
    from Cons.IH [OF d(1) this] True d(2) show ?thesis
      by (simp add: fan_out_room full_def)
  next
    case False
    with Cons.prems nc
    have "deliver m cs (s\<lparr>clients := clients s |-| {|c|},
                  chan_closed := (chan_closed s)(c := True),
                  conn_closes := (conn_closes s)(c := Suc (conn_closes s c))\<rparr>) = Inr s'"
      by (simp add: teardown_def)
    from Cons.IH [OF d(1) this] False d(2) show ?thesis
      by (simp add: fan_out_drop full_def)
  qed
qed

lemma deliver_total:
  "distinct ord \<Longrightarrow> \<forall>c\<in>set ord. \<not> chan_closed s c \<Longrightarrow> \<exists>s'. deliver m ord s = Inr s'"
proof (induction ord arbitrary: s)
  case Nil
  then show ?case by simp
next
  case (Cons c cs)
  then have nc: "\<not> chan_closed s c" and d: "distinct cs" "c \<notin> set cs"
    and o: "\<forall>d\<in>set cs. \<not> chan_closed s d" by simp_all
  show ?case
  proof (cases "length (messages s c) < 256")
    case True
    have "\<exists>s'. deliver m cs (s\<lparr>messages := (messages s)(c := messages s c @ [m])\<rparr>) = Inr s'"
      using o by (intro Cons.IH [OF d(1)]) simp
    with True nc show ?thesis by simp
  next
    case False
    have "\<exists>s'. deliver m cs (s\<lparr>clients := clients s |-| {|c|},
                  chan_closed := (chan_closed s)(c := True),
                  conn_closes := (conn_closes s)(c := Suc (conn_closes s c))\<rparr>) = Inr s'"
      using o d(2) by (intro Cons.IH [OF d(1)]) auto
    with False nc show ?thesis by (simp add: teardown_def)
  qed
qed

lemma deliver_eq:
  assumes "distinct ord" and "\<forall>c\<in>set ord. \<not> chan_closed s c"
  shows "deliver m ord s = Inr (fan_out m ord s)"
  using deliver_total [OF assms, of m] deliver_Inr [OF assms(1)] by auto

lemma enumeratesD:
  assumes "enumerates ord S"
  shows "distinct ord" and "\<And>c. c \<in> set ord \<longleftrightarrow> c |\<in>| S"
  using assms by (auto simp: enumerates_def fset_of_list.rep_eq)

lemma broadcast_step:
  assumes w: "wf_server s" and e: "enumerates ord (clients s)"
  shows "dispatch (Broadcast t) ord s = Inr (fan_out t ord s, [])"
    and "wf_server (fan_out t ord s)"
    and "c |\<in>| clients (fan_out t ord s) \<longleftrightarrow> c |\<in>| clients s \<and> length (messages s c) < 256"
    and "messages (fan_out t ord s) c =
           (if c |\<in>| clients s \<and> length (messages s c) < 256 then messages s c @ [t] else messages s c)"
    and "chan_closed (fan_out t ord s) c \<longleftrightarrow>
           chan_closed s c \<or> (c |\<in>| clients s \<and> \<not> length (messages s c) < 256)"
    and "conn_closes (fan_out t ord s) c =
           (if c |\<in>| clients s \<and> \<not> length (messages s c) < 256 then Suc (conn_closes s c)
            else conn_closes s c)"
proof -
  note d = enumeratesD [OF e]
  have "\<forall>c\<in>set ord. \<not> chan_closed s c" using w d(2) by (auto simp: wf_server_def)
  with d(1) show "dispatch (Broadcast t) ord s = Inr (fan_out t ord s, [])"
    by (simp add: deliver_eq)
  show m: "c |\<in>| clients (fan_out t ord s) \<longleftrightarrow> c |\<in>| clients s \<and> length (messages s c) < 256" for c
    using d(2) by (auto simp: fan_out_def full_def fset_of_list.rep_eq)
  show "messages (fan_out t ord s) c =
           (if c |\<in>| clients s \<and> length (messages s c) < 256 then messages s c @ [t] else messages s c)"
    using d(2) by (simp add: fan_out_def full_def)
  show cl: "chan_closed (fan_out t ord s) c \<longleftrightarrow>
           chan_closed s c \<or> (c |\<in>| clients s \<and> \<not> length (messages s c) < 256)" for c
    using d(2) by (simp add: fan_out_def full_def)
  show "conn_closes (fan_out t ord s) c =
           (if c |\<in>| clients s \<and> \<not> length (messages s c) < 256 then Suc (conn_closes s c)
            else conn_closes s c)"
    using d(2) by (simp add: fan_out_def full_def)
  show "wf_server (fan_out t ord s)"
    using w unfolding wf_server_def by (auto simp: m cl)
qed

section \<open>The engine: registration, deregistration, broadcast\<close>

lemma people [simp]: "al \<noteq> bo" "bo \<noteq> al" "al \<noteq> cy" "cy \<noteq> al" "bo \<noteq> cy" "cy \<noteq> bo"
  by (simp_all add: al_def bo_def cy_def)

lemma duo_simps [simp]:
  "clients duo = {|al, bo|}" "messages duo c = []" "chan_closed duo c = False" "conn_closes duo c = 0"
  by (simp_all add: duo_def)

lemma packed_simps [simp]:
  "clients packed = {|al, bo|}" "messages packed al = replicate 256 ''m''"
  "messages packed bo = []" "chan_closed packed c = False" "conn_closes packed c = 0"
  by (simp_all add: packed_def)

lemma wf_duo: "wf_server duo" and wf_packed: "wf_server packed"
  by (simp_all add: wf_server_def)

lemma enum_duo: "enumerates [al, bo] (clients duo)" "enumerates [al, bo] (clients packed)"
  by (simp_all add: enumerates_def)

text \<open>
  The states of the engine are the well-formed ones: the server starts in one, and every
  step keeps the state well-formed, as long as a client is registered with its channel
  open (\<^verbatim>\<open>handleClient\<close> makes the channel just before it sends the \<^verbatim>\<open>Register\<close>).
\<close>

lemma wf_server_New: "wf_server NewChatServer"
  by (simp add: wf_server_def NewChatServer_def)

lemma wf_server_recv: "wf_server s \<Longrightarrow> wf_server (recv d s)"
  by (simp add: wf_server_def recv_def)

lemma wf_server_dispatch:
  assumes w: "wf_server s" and d: "dispatch ev ord s = Inr (s', out)" and o: "distinct ord"
    and r: "\<And>c. ev = Register c \<Longrightarrow> \<not> chan_closed s c"
  shows "wf_server s'"
proof (cases ev)
  case (Register c)
  with w d r [of c] show ?thesis by (auto simp: wf_server_def add_client_def)
next
  case (Unregister c)
  with w d show ?thesis by (auto simp: wf_server_def teardown_def split: if_splits)
next
  case (Broadcast m)
  with d have "deliver m ord s = Inr s'" by (auto split: sum.splits)
  from deliver_Inr [OF o this] w show ?thesis
    by (auto simp: wf_server_def fan_out_def fset_of_list.rep_eq)
qed

lemma run_Sending: "run evs (Sending s m) = Sending s m"
  by (cases evs) auto

lemma register_in_program_order:
  assumes "enumerates ord (finsert c (clients s))"
  shows "dispatch (Register c) ord s =
    Inr (add_client c s, [joinMsg c, ''*** Online users: '' @ Join (map name ord) '', '' @ '' ***''])"
proof -
  have "c \<in> set ord" using enumeratesD(2) [OF assms, of c] by simp
  then have "ord \<noteq> []" by auto
  then show ?thesis by (simp add: sendUserList_def)
qed

text \<open>
  Claim C3 says that the \<^verbatim>\<open>Register\<close> case adds the client and then emits two
  broadcasts, the join announcement and the roster (\<open>register_in_program_order\<close> is that
  reading of the case). The code does not get there: after adding the client, \<^verbatim>\<open>run\<close>
  stands at the send of the join announcement on the unbuffered \<^verbatim>\<open>server.broadcast\<close>,
  of which it is itself the only receiver, and whatever events are offered afterwards it
  stays there. The announcement reaches no queue and \<^verbatim>\<open>sendUserList\<close> is never called.
\<close>

theorem run_stops_at_join_announcement:
  "run_event (Register c) ord s = Sending (add_client c s) (joinMsg c) \<and>
   run evs (run_event (Register c) ord s) = Sending (add_client c s) (joinMsg c)"
  by (simp add: run_event_def run_Sending)

lemma unregister_absent:
  assumes "c |\<notin>| clients s"
  shows "dispatch (Unregister c) ord s = Inr (s, leaveMsg c # sendUserList ord)"
  using assms by simp

lemma unregister_member:
  assumes "c |\<in>| clients s" and "\<not> chan_closed s c"
  shows "dispatch (Unregister c) ord s =
    Inr (s\<lparr>clients := clients s |-| {|c|},
           chan_closed := (chan_closed s)(c := True),
           conn_closes := (conn_closes s)(c := Suc (conn_closes s c))\<rparr>,
         leaveMsg c # sendUserList ord)"
  using assms by (simp add: teardown_def)

lemma unregister_twice:
  "process [Consume (Unregister c) ord, Consume (Unregister c) ord'] s
     = process [Consume (Unregister c) ord] s"
proof (cases "c |\<in>| clients s")
  case False
  then show ?thesis by simp
next
  case True
  then show ?thesis by (cases "chan_closed s c") (simp_all add: teardown_def)
qed

text \<open>
  Claim C1, as amended. An \<^verbatim>\<open>Unregister\<close> of a client that is not a member changes
  neither the set of clients nor any queue nor any connection, so two \<^verbatim>\<open>Unregister\<close>
  of one client leave the state that one leaves. It is not a no-op: the case goes on to
  the send of the leave announcement, member or not.
\<close>

theorem unregister_of_non_member:
  "(c |\<notin>| clients s \<longrightarrow>
      dispatch (Unregister c) ord s = Inr (s, leaveMsg c # sendUserList ord) \<and>
      run_event (Unregister c) ord s = Sending s (leaveMsg c)) \<and>
   process [Consume (Unregister c) ord, Consume (Unregister c) ord'] s
     = process [Consume (Unregister c) ord] s"
  using unregister_twice [of c ord ord' s] by (simp add: run_event_def)

theorem unregister_of_non_member_witness:
  "cy |\<notin>| clients duo \<and>
   dispatch (Unregister cy) [al, bo] duo = Inr (duo, leaveMsg cy # sendUserList [al, bo]) \<and>
   run_event (Unregister cy) [al, bo] duo = Sending duo (leaveMsg cy)"
proof -
  have h: "cy |\<notin>| clients duo" by simp
  from unregister_of_non_member [of cy duo "[al, bo]" "[]"] h show ?thesis by blast
qed

text \<open>
  Claim C1 as stated has the \<^verbatim>\<open>Unregister\<close> of a non-member emit nothing. For \<open>cy\<close>, who
  is not a member, the engine goes to the send of \<^verbatim>\<open>*** cy has left the chat ***\<close>; in
  program order the case sends that announcement and the roster.
\<close>

theorem unregister_of_non_member_counterexample:
  "cy |\<notin>| clients duo \<and>
   sending (run [(Unregister cy, [al, bo])] (Selecting duo)) = Some ''*** cy has left the chat ***'' \<and>
   dispatch (Unregister cy) [al, bo] duo =
     Inr (duo, [''*** cy has left the chat ***'', ''*** Online users: al, bo ***''])"
  by (simp add: run_event_def leaveMsg_def sendUserList_def cy_def al_def bo_def)


lemma broadcast_twice:
  assumes w: "wf_server s" and e: "enumerates ord (clients s)"
    and e2: "enumerates ord2 (clients (fan_out t ord s))"
  shows "dispatch (Broadcast t2) ord2 (fan_out t ord s) = Inr (fan_out t2 ord2 (fan_out t ord s), [])"
    and "c |\<in>| clients (fan_out t2 ord2 (fan_out t ord s)) \<Longrightarrow>
           c |\<in>| clients (fan_out t ord s) \<and>
           messages (fan_out t2 ord2 (fan_out t ord s)) c = messages s c @ [t, t2]"
proof -
  note w1 = broadcast_step(2) [OF w e, where t = t]
  show "dispatch (Broadcast t2) ord2 (fan_out t ord s) = Inr (fan_out t2 ord2 (fan_out t ord s), [])"
    by (rule broadcast_step(1) [OF w1 e2])
  assume "c |\<in>| clients (fan_out t2 ord2 (fan_out t ord s))"
  then have 1: "c |\<in>| clients (fan_out t ord s)" "length (messages (fan_out t ord s) c) < 256"
    by (simp_all add: broadcast_step(3) [OF w1 e2])
  then have 2: "c |\<in>| clients s" "length (messages s c) < 256"
    by (simp_all add: broadcast_step(3) [OF w e])
  have "messages (fan_out t2 ord2 (fan_out t ord s)) c = messages (fan_out t ord s) c @ [t2]"
    using 1 by (simp add: broadcast_step(4) [OF w1 e2])
  also have "messages (fan_out t ord s) c = messages s c @ [t]"
    using 2 by (simp add: broadcast_step(4) [OF w e])
  finally show "c |\<in>| clients (fan_out t ord s) \<and>
           messages (fan_out t2 ord2 (fan_out t ord s)) c = messages s c @ [t, t2]"
    using 1 by simp
qed

text \<open>
  Claim C2. In every state of the engine (the channel of every member open) and for
  every text \<open>t\<close>, the \<^verbatim>\<open>Broadcast\<close> case tries a send without blocking on the queue
  (capacity 256) of each member: a member whose queue has room gets \<open>t\<close> appended and
  stays, a member whose queue is full is removed, its channel closed and its connection
  closed. So every remaining member has received \<open>t\<close>, the state is again a state of
  the engine, and a following broadcast \<open>t2\<close> reaches every member that remains then.
\<close>

theorem broadcast_reaches_every_member:
  assumes "wf_server s" and "enumerates ord (clients s)"
  shows "\<exists>s'. dispatch (Broadcast t) ord s = Inr (s', []) \<and> wf_server s' \<and>
     (\<forall>c. c |\<in>| clients s \<and> length (messages s c) < 256 \<longrightarrow>
        c |\<in>| clients s' \<and> messages s' c = messages s c @ [t]) \<and>
     (\<forall>c. c |\<in>| clients s \<and> \<not> length (messages s c) < 256 \<longrightarrow>
        c |\<notin>| clients s' \<and> chan_closed s' c \<and> conn_closes s' c = Suc (conn_closes s c)) \<and>
     (\<forall>c. c |\<in>| clients s' \<longrightarrow> c |\<in>| clients s \<and> messages s' c = messages s c @ [t]) \<and>
     (\<forall>t2 ord2. enumerates ord2 (clients s') \<longrightarrow>
        (\<exists>s2. dispatch (Broadcast t2) ord2 s' = Inr (s2, []) \<and>
           (\<forall>c. c |\<in>| clients s2 \<longrightarrow> c |\<in>| clients s' \<and> messages s2 c = messages s c @ [t, t2])))"
proof -
  note B = broadcast_step [OF assms, where t = t]
  have "\<exists>s2. dispatch (Broadcast t2) ord2 (fan_out t ord s) = Inr (s2, []) \<and>
           (\<forall>c. c |\<in>| clients s2 \<longrightarrow>
              c |\<in>| clients (fan_out t ord s) \<and> messages s2 c = messages s c @ [t, t2])"
    if "enumerates ord2 (clients (fan_out t ord s))" for t2 ord2
    using broadcast_twice [OF assms that] by blast
  then show ?thesis
    using B(1) B(2) by (intro exI [of _ "fan_out t ord s"]) (simp add: B(3-6))
qed

theorem broadcast_reaches_every_member_witness:
  "wf_server packed \<and> enumerates [al, bo] (clients packed) \<and>
   (\<exists>s'. dispatch (Broadcast ''x'') [al, bo] packed = Inr (s', []) \<and>
      bo |\<in>| clients s' \<and> messages s' bo = [''x''] \<and>
      al |\<notin>| clients s' \<and> chan_closed s' al \<and> conn_closes s' al = 1)"
proof -
  from broadcast_reaches_every_member [OF wf_packed enum_duo(2), of "''x''"]
  obtain s' where d: "dispatch (Broadcast ''x'') [al, bo] packed = Inr (s', [])"
    and r: "\<forall>c. c |\<in>| clients packed \<and> length (messages packed c) < 256 \<longrightarrow>
        c |\<in>| clients s' \<and> messages s' c = messages packed c @ [''x'']"
    and f: "\<forall>c. c |\<in>| clients packed \<and> \<not> length (messages packed c) < 256 \<longrightarrow>
        c |\<notin>| clients s' \<and> chan_closed s' c \<and> conn_closes s' c = Suc (conn_closes packed c)"
    by blast
  from r [rule_format, of bo] have "bo |\<in>| clients s' \<and> messages s' bo = [''x'']" by simp
  moreover from f [rule_format, of al]
  have "al |\<notin>| clients s' \<and> chan_closed s' al \<and> conn_closes s' al = 1" by simp
  ultimately show ?thesis using d wf_packed enum_duo(2) by blast
qed

lemma enumerates_removeAll:
  assumes "enumerates ord S"
  shows "enumerates (removeAll c ord) (S |-| {|c|})"
  using assms by (auto simp: enumerates_def distinct_removeAll fset_of_list.rep_eq)

text \<open>
  Claim C9, as amended. When the \<^verbatim>\<open>Broadcast\<close> case removes a client \<open>c\<close> whose queue is
  full, that case sends no leave announcement and no roster: but for \<open>c\<close> leaving the
  set, its channel being closed and its connection being closed, the set of clients, the
  queues, the channels and the connections of all others are as if \<open>c\<close> had not been a
  member. The leave announcement comes later: the \<^verbatim>\<open>Unregister\<close> of \<open>c\<close> (which its
  inbound pump sends once its connection fails) takes the engine to the send of it,
  although \<open>c\<close> is no longer a member.
\<close>

theorem dropped_client_is_not_announced_by_broadcast:
  assumes w: "wf_server s" and e: "enumerates ord (clients s)"
    and c: "c |\<in>| clients s" and f: "\<not> length (messages s c) < 256"
  shows "\<exists>s' r'. dispatch (Broadcast t) ord s = Inr (s', []) \<and>
     dispatch (Broadcast t) (removeAll c ord) (s\<lparr>clients := clients s |-| {|c|}\<rparr>) = Inr (r', []) \<and>
     clients s' = clients r' \<and> c |\<notin>| clients s' \<and>
     (\<forall>d. d \<noteq> c \<longrightarrow> messages s' d = messages r' d \<and> chan_closed s' d = chan_closed r' d \<and>
        conn_closes s' d = conn_closes r' d) \<and>
     messages s' c = messages s c \<and> chan_closed s' c \<and> conn_closes s' c = Suc (conn_closes s c) \<and>
     (\<forall>ord'. dispatch (Unregister c) ord' s' = Inr (s', leaveMsg c # sendUserList ord') \<and>
        run_event (Unregister c) ord' s' = Sending s' (leaveMsg c))"
proof -
  let ?r = "s\<lparr>clients := clients s |-| {|c|}\<rparr>"
  have wr: "wf_server ?r" using w by (auto simp: wf_server_def)
  have er: "enumerates (removeAll c ord) (clients ?r)"
    using enumerates_removeAll [OF e, of c] by simp
  note S = broadcast_step [OF w e, where t = t]
  note R = broadcast_step [OF wr er, where t = t]
  have 1: "clients (fan_out t ord s) = clients (fan_out t (removeAll c ord) ?r)"
  proof (rule fset_eqI)
    fix d
    show "d |\<in>| clients (fan_out t ord s) \<longleftrightarrow> d |\<in>| clients (fan_out t (removeAll c ord) ?r)"
      using f by (auto simp: S(3) R(3))
  qed
  have 2: "c |\<notin>| clients (fan_out t ord s)" using f by (simp add: S(3))
  have 3: "messages (fan_out t ord s) d = messages (fan_out t (removeAll c ord) ?r) d \<and>
      chan_closed (fan_out t ord s) d = chan_closed (fan_out t (removeAll c ord) ?r) d \<and>
      conn_closes (fan_out t ord s) d = conn_closes (fan_out t (removeAll c ord) ?r) d"
    if "d \<noteq> c" for d
    using that by (simp add: S(4-6) R(4-6))
  have 4: "messages (fan_out t ord s) c = messages s c \<and> chan_closed (fan_out t ord s) c \<and>
      conn_closes (fan_out t ord s) c = Suc (conn_closes s c)"
    using c f by (simp add: S(4-6))
  have 5: "dispatch (Unregister c) ord' (fan_out t ord s)
        = Inr (fan_out t ord s, leaveMsg c # sendUserList ord') \<and>
      run_event (Unregister c) ord' (fan_out t ord s) = Sending (fan_out t ord s) (leaveMsg c)"
    for ord'
    using 2 by (simp add: run_event_def)
  from S(1) R(1) 1 2 3 4 5 show ?thesis by blast
qed

theorem dropped_client_is_not_announced_by_broadcast_witness:
  "wf_server packed \<and> enumerates [al, bo] (clients packed) \<and> al |\<in>| clients packed \<and>
   \<not> length (messages packed al) < 256 \<and>
   (\<exists>s'. dispatch (Broadcast ''x'') [al, bo] packed = Inr (s', []) \<and> al |\<notin>| clients s' \<and>
      run_event (Unregister al) [bo] s' = Sending s' (leaveMsg al))"
proof -
  have c: "al |\<in>| clients packed" and f: "\<not> length (messages packed al) < 256" by simp_all
  from dropped_client_is_not_announced_by_broadcast [OF wf_packed enum_duo(2) c f, of "''x''"]
  have "\<exists>s'. dispatch (Broadcast ''x'') [al, bo] packed = Inr (s', []) \<and> al |\<notin>| clients s' \<and>
      run_event (Unregister al) [bo] s' = Sending s' (leaveMsg al)"
    by blast
  with wf_packed enum_duo(2) c f show ?thesis by blast
qed

text \<open>
  Claim C9 as stated has the engine never announce that the dropped client left. With
  the queue of \<open>al\<close> full, a broadcast drops \<open>al\<close>; the \<^verbatim>\<open>Unregister\<close> of \<open>al\<close> that follows
  takes the engine to the send of \<^verbatim>\<open>*** al has left the chat ***\<close>.
\<close>

theorem dropped_client_counterexample:
  "al |\<in>| clients packed \<and> length (messages packed al) = 256 \<and>
   sending (run [(Broadcast ''x'', [al, bo]), (Unregister al, [bo])] (Selecting packed))
     = Some ''*** al has left the chat ***''"
proof -
  have d: "dispatch (Broadcast ''x'') [al, bo] packed = Inr (fan_out ''x'' [al, bo] packed, [])"
    by (rule broadcast_step(1) [OF wf_packed enum_duo(2)])
  have "al |\<notin>| clients (fan_out ''x'' [al, bo] packed)"
    by (simp add: broadcast_step(3) [OF wf_packed enum_duo(2)])
  then have "run_event (Unregister al) [bo] (fan_out ''x'' [al, bo] packed)
      = Sending (fan_out ''x'' [al, bo] packed) (leaveMsg al)"
    by (simp add: run_event_def)
  moreover have "leaveMsg al = ''*** al has left the chat ***''" by (simp add: leaveMsg_def al_def)
  ultimately show ?thesis using d by (simp add: run_event_def)
qed

section \<open>Order of delivery, and closing of connections\<close>

lemma recv_messages:
  "\<exists>j. messages (recv d s) c @ xs = drop j (messages s c @ xs)"
proof (cases "c = d \<and> messages s c \<noteq> []")
  case True
  then have "messages (recv d s) c @ xs = drop 1 (messages s c @ xs)"
    by (cases "messages s c") (simp_all add: recv_def)
  then show ?thesis ..
next
  case False
  then have "messages (recv d s) c @ xs = drop 0 (messages s c @ xs)"
    by (auto simp: recv_def)
  then show ?thesis ..
qed

lemma dispatch_messages:
  assumes "dispatch ev ord s = Inr (s', out)" and "distinct ord"
  shows "messages s' c = messages s c \<or> (\<exists>m. ev = Broadcast m \<and> messages s' c = messages s c @ [m])"
proof (cases ev)
  case (Register x)
  with assms show ?thesis by (auto simp: add_client_def)
next
  case (Unregister x)
  with assms show ?thesis by (auto simp: teardown_def split: if_splits)
next
  case (Broadcast m)
  with assms(1) obtain "deliver m ord s = Inr s'" by (auto split: sum.splits)
  from deliver_Inr [OF assms(2) this] Broadcast show ?thesis by (simp add: fan_out_def)
qed

lemma subseq_broadcasts_Cons:
  assumes "subseq xs (broadcasts tr)"
  shows "subseq xs (broadcasts (x # tr))"
proof (cases x)
  case (Consume ev ord)
  with assms show ?thesis by (cases ev) (simp_all add: list_emb_Cons)
next
  case (Drain d)
  with assms show ?thesis by simp
qed

lemma process_messages:
  "orders_ok tr s \<Longrightarrow> process tr s = Inr s' \<Longrightarrow>
     \<exists>k xs. subseq xs (broadcasts tr) \<and> messages s' c = drop k (messages s c @ xs)"
proof (induction tr arbitrary: s)
  case Nil
  then have "subseq [] (broadcasts []) \<and> messages s' c = drop 0 (messages s c @ [])" by simp
  then show ?case by blast
next
  case (Cons x tr)
  show ?case
  proof (cases x)
    case (Drain d)
    with Cons.prems have "orders_ok tr (recv d s)" "process tr (recv d s) = Inr s'" by simp_all
    from Cons.IH [OF this] obtain k xs where xs: "subseq xs (broadcasts tr)"
      and m: "messages s' c = drop k (messages (recv d s) c @ xs)" by blast
    from recv_messages [of d s c xs] obtain j
      where "messages (recv d s) c @ xs = drop j (messages s c @ xs)" ..
    with m have "messages s' c = drop (k + j) (messages s c @ xs)" by (simp only: drop_drop)
    moreover from xs have "subseq xs (broadcasts (x # tr))" by (rule subseq_broadcasts_Cons)
    ultimately show ?thesis by blast
  next
    case (Consume ev ord)
    with Cons.prems obtain s1 out where d: "dispatch ev ord s = Inr (s1, out)"
      and p: "process tr s1 = Inr s'"
      by (cases "dispatch ev ord s") auto
    from Consume Cons.prems(1) d have o: "orders_ok tr s1" and e: "enumerates ord (ranged ev s)"
      by simp_all
    from e have di: "distinct ord" by (simp add: enumerates_def)
    from Cons.IH [OF o p] obtain k xs where xs: "subseq xs (broadcasts tr)"
      and m: "messages s' c = drop k (messages s1 c @ xs)" by blast
    from dispatch_messages [OF d di, of c] show ?thesis
    proof
      assume "messages s1 c = messages s c"
      with m have "messages s' c = drop k (messages s c @ xs)" by simp
      moreover from xs have "subseq xs (broadcasts (x # tr))" by (rule subseq_broadcasts_Cons)
      ultimately show ?thesis by blast
    next
      assume "\<exists>t. ev = Broadcast t \<and> messages s1 c = messages s c @ [t]"
      then obtain t where t: "ev = Broadcast t" "messages s1 c = messages s c @ [t]" by blast
      with m have "messages s' c = drop k (messages s c @ (t # xs))" by simp
      moreover from xs t(1) Consume have "subseq (t # xs) (broadcasts (x # tr))" by simp
      ultimately show ?thesis by blast
    qed
  qed
qed

lemma subseq_drop: "subseq (drop k xs) xs"
  by (simp add: suffix_drop suffix_imp_subseq)

text \<open>
  Claim C5. For every sequence of events taken by the engine (interleaved with the
  outbound pumps taking texts from the queues, each map loop visiting every key once)
  and any two clients \<open>c\<close> and \<open>d\<close>: what the queue of each holds at the end is what it held
  at the start followed by a subsequence of one and the same sequence, the texts of the
  \<^verbatim>\<open>Broadcast\<close> events in the order the engine took them, less what was taken from the
  front. Queues that start empty are subsequences of that sequence: no text overtakes
  another for any recipient.
\<close>

theorem queues_follow_the_broadcast_order:
  assumes "orders_ok tr s" and "process tr s = Inr s'"
  shows "(\<exists>k xs. subseq xs (broadcasts tr) \<and> messages s' c = drop k (messages s c @ xs)) \<and>
         (\<exists>k xs. subseq xs (broadcasts tr) \<and> messages s' d = drop k (messages s d @ xs)) \<and>
         (messages s c = [] \<and> messages s d = [] \<longrightarrow>
            subseq (messages s' c) (broadcasts tr) \<and> subseq (messages s' d) (broadcasts tr))"
proof -
  have *: "subseq (messages s' e) (broadcasts tr)" if "messages s e = []" for e
  proof -
    from process_messages [OF assms, of e] that obtain k xs
      where "subseq xs (broadcasts tr)" "messages s' e = drop k xs" by auto
    moreover have "subseq (drop k xs) xs" by (rule subseq_drop)
    ultimately show ?thesis using subseq_order.order_trans by auto
  qed
  from process_messages [OF assms, of c] process_messages [OF assms, of d] *
  show ?thesis by blast
qed


theorem queues_follow_the_broadcast_order_witness:
  "orders_ok [Consume (Broadcast ''x'') [al, bo], Drain al, Consume (Broadcast ''y'') [bo, al]] duo \<and>
   (\<exists>s'. process [Consume (Broadcast ''x'') [al, bo], Drain al, Consume (Broadcast ''y'') [bo, al]] duo
            = Inr s' \<and>
      messages s' al = [''y''] \<and> messages s' bo = [''x'', ''y''] \<and>
      subseq (messages s' al) [''x'', ''y''] \<and> subseq (messages s' bo) [''x'', ''y''])"
proof -
  let ?tr = "[Consume (Broadcast ''x'') [al, bo], Drain al, Consume (Broadcast ''y'') [bo, al]]"
  let ?s = "fan_out ''y'' [bo, al] (recv al (fan_out ''x'' [al, bo] duo))"
  have 1: "deliver ''x'' [al, bo] duo = Inr (fan_out ''x'' [al, bo] duo)"
    by (rule deliver_eq) simp_all
  have 2: "deliver ''y'' [bo, al] (recv al (fan_out ''x'' [al, bo] duo)) = Inr ?s"
    by (rule deliver_eq) (simp_all add: recv_def fan_out_def full_def)
  have c: "clients (recv al (fan_out ''x'' [al, bo] duo)) = {|al, bo|}"
    by (simp add: recv_def fan_out_def full_def)
  have p: "process ?tr duo = Inr ?s" by (simp add: 1 2 del: deliver.simps)
  have o: "orders_ok ?tr duo"
    using c by (auto simp add: 1 2 enumerates_def simp del: deliver.simps)
  have b: "broadcasts ?tr = [''x'', ''y'']" by simp
  have m: "messages duo al = [] \<and> messages duo bo = []" by simp
  have a: "messages ?s al = [''y'']" "messages ?s bo = [''x'', ''y'']"
    by (simp_all add: recv_def fan_out_def full_def)
  from queues_follow_the_broadcast_order [OF o p, of al bo] m b
  have "subseq (messages ?s al) [''x'', ''y''] \<and> subseq (messages ?s bo) [''x'', ''y'']"
    by simp
  with o p a show ?thesis by blast
qed

lemma deliver_closed_once:
  "deliver m ord s = Inr s' \<Longrightarrow> closed_once s c \<Longrightarrow> closed_once s' c"
proof (induction ord arbitrary: s)
  case Nil
  then show ?case by simp
next
  case (Cons d ds)
  from Cons.prems(1) have nc: "\<not> chan_closed s d" by (auto split: if_splits)
  show ?case
  proof (cases "length (messages s d) < 256")
    case True
    with Cons.prems(1) nc
    have "deliver m ds (s\<lparr>messages := (messages s)(d := messages s d @ [m])\<rparr>) = Inr s'" by simp
    moreover have "closed_once (s\<lparr>messages := (messages s)(d := messages s d @ [m])\<rparr>) c"
      using Cons.prems(2) by (simp add: closed_once_def)
    ultimately show ?thesis by (rule Cons.IH)
  next
    case False
    let ?s1 = "s\<lparr>clients := clients s |-| {|d|},
                  chan_closed := (chan_closed s)(d := True),
                  conn_closes := (conn_closes s)(d := Suc (conn_closes s d))\<rparr>"
    from False Cons.prems(1) nc have "deliver m ds ?s1 = Inr s'" by (simp add: teardown_def)
    moreover have "closed_once ?s1 c"
      using Cons.prems(2) nc by (auto simp: closed_once_def)
    ultimately show ?thesis by (rule Cons.IH)
  qed
qed

lemma deliver_keeps_or_closes:
  "deliver m ord s = Inr s' \<Longrightarrow> c |\<in>| clients s \<or> chan_closed s c \<Longrightarrow>
     c |\<in>| clients s' \<or> chan_closed s' c"
proof (induction ord arbitrary: s)
  case Nil
  then show ?case by simp
next
  case (Cons d ds)
  from Cons.prems(1) have nc: "\<not> chan_closed s d" by (auto split: if_splits)
  show ?case
  proof (cases "length (messages s d) < 256")
    case True
    with Cons.prems(1) nc
    have "deliver m ds (s\<lparr>messages := (messages s)(d := messages s d @ [m])\<rparr>) = Inr s'" by simp
    moreover have "c |\<in>| clients (s\<lparr>messages := (messages s)(d := messages s d @ [m])\<rparr>) \<or>
        chan_closed (s\<lparr>messages := (messages s)(d := messages s d @ [m])\<rparr>) c"
      using Cons.prems(2) by simp
    ultimately show ?thesis by (rule Cons.IH)
  next
    case False
    let ?s1 = "s\<lparr>clients := clients s |-| {|d|},
                  chan_closed := (chan_closed s)(d := True),
                  conn_closes := (conn_closes s)(d := Suc (conn_closes s d))\<rparr>"
    from False Cons.prems(1) nc have "deliver m ds ?s1 = Inr s'" by (simp add: teardown_def)
    moreover have "c |\<in>| clients ?s1 \<or> chan_closed ?s1 c"
      using Cons.prems(2) by auto
    ultimately show ?thesis by (rule Cons.IH)
  qed
qed

lemma dispatch_closed_once:
  assumes "dispatch ev ord s = Inr (s', out)" and "closed_once s c"
  shows "closed_once s' c"
proof (cases ev)
  case (Register x)
  with assms show ?thesis by (auto simp: add_client_def closed_once_def)
next
  case (Unregister x)
  with assms show ?thesis by (auto simp: teardown_def closed_once_def split: if_splits)
next
  case (Broadcast m)
  with assms(1) have "deliver m ord s = Inr s'" by (auto split: sum.splits)
  then show ?thesis using assms(2) by (rule deliver_closed_once)
qed

lemma dispatch_keeps_or_closes:
  assumes "dispatch ev ord s = Inr (s', out)" and "c |\<in>| clients s \<or> chan_closed s c"
  shows "c |\<in>| clients s' \<or> chan_closed s' c"
proof (cases ev)
  case (Register x)
  with assms show ?thesis by (auto simp: add_client_def)
next
  case (Unregister x)
  with assms show ?thesis by (auto simp: teardown_def split: if_splits)
next
  case (Broadcast m)
  with assms(1) have "deliver m ord s = Inr s'" by (auto split: sum.splits)
  then show ?thesis using assms(2) by (rule deliver_keeps_or_closes)
qed

lemma process_closed_once:
  "process tr s = Inr s' \<Longrightarrow> closed_once s c \<Longrightarrow> c |\<in>| clients s \<or> chan_closed s c \<Longrightarrow>
     closed_once s' c \<and> (c |\<in>| clients s' \<or> chan_closed s' c)"
proof (induction tr arbitrary: s)
  case Nil
  then show ?case by simp
next
  case (Cons x tr)
  show ?case
  proof (cases x)
    case (Drain d)
    with Cons.prems(1) have "process tr (recv d s) = Inr s'" by simp
    moreover have "closed_once (recv d s) c" using Cons.prems(2) by (simp add: closed_once_def recv_def)
    moreover have "c |\<in>| clients (recv d s) \<or> chan_closed (recv d s) c"
      using Cons.prems(3) by (simp add: recv_def)
    ultimately show ?thesis by (rule Cons.IH)
  next
    case (Consume ev ord)
    with Cons.prems(1) obtain s1 out where d: "dispatch ev ord s = Inr (s1, out)"
      and p: "process tr s1 = Inr s'"
      by (cases "dispatch ev ord s") auto
    from p dispatch_closed_once [OF d Cons.prems(2)] dispatch_keeps_or_closes [OF d Cons.prems(3)]
    show ?thesis by (rule Cons.IH)
  qed
qed

lemma writePump_closed_empty:
  assumes "chan_closed s c" and "messages s c = []"
  shows "writePump c oks s = close_conn c s"
  using assms by (cases oks) simp_all

lemma writePump_closed:
  "chan_closed s c \<Longrightarrow> length (messages s c) \<le> length oks \<Longrightarrow>
     conn_closes (writePump c oks s) c = Suc (conn_closes s c)"
proof (induction oks arbitrary: s)
  case Nil
  then show ?case by (simp add: close_conn_def)
next
  case (Cons ok oks)
  show ?case
  proof (cases "messages s c = []")
    case True
    with Cons.prems show ?thesis by (simp add: close_conn_def)
  next
    case False
    show ?thesis
    proof (cases "ok \<and> conn_closes s c = 0")
      case True
      have "chan_closed (recv c s) c" using Cons.prems(1) by (simp add: recv_def)
      moreover have "length (messages (recv c s) c) \<le> length oks"
        using Cons.prems(2) False by (cases "messages s c") (simp_all add: recv_def)
      ultimately have "conn_closes (writePump c oks (recv c s)) c = Suc (conn_closes (recv c s) c)"
        by (rule Cons.IH)
      with True False show ?thesis by (simp add: recv_def)
    next
      case F: False
      with False show ?thesis by (auto simp: close_conn_def recv_def)
    qed
  qed
qed

lemma writePump_failed_write:
  assumes "messages s c \<noteq> []" and "\<not> ok \<or> conn_closes s c \<noteq> 0"
  shows "conn_closes (writePump c (ok # oks) s) c = Suc (conn_closes s c)"
  using assms by (auto simp: close_conn_def recv_def)

text \<open>
  Claim C8, as amended. The engine closes the connection of a client exactly once, when
  it removes the client from the set, be it in the \<^verbatim>\<open>Unregister\<close> case or in the loop of
  the \<^verbatim>\<open>Broadcast\<close> case, and over any sequence of steps never a second time. The
  engine is not the only one to close it: \<^verbatim>\<open>writePump\<close> closes the connection when it
  returns, which it does on finding the channel closed once it has taken what was
  buffered (the write of a buffered text to a closed connection fails), and on any
  failed write. So a pump that runs on after a teardown, by \<^verbatim>\<open>Unregister\<close> or by the
  broadcast drop, brings the number of closes of that connection to two.
\<close>

theorem engine_closes_a_connection_once:
  "(c |\<in>| clients s \<and> \<not> chan_closed s c \<longrightarrow>
      (\<exists>s'. dispatch (Unregister c) ord s = Inr (s', leaveMsg c # sendUserList ord) \<and>
         c |\<notin>| clients s' \<and> chan_closed s' c \<and> conn_closes s' c = Suc (conn_closes s c))) \<and>
   (wf_server s \<and> enumerates ord (clients s) \<and> c |\<in>| clients s \<and> \<not> length (messages s c) < 256 \<longrightarrow>
      (\<exists>s'. dispatch (Broadcast t) ord s = Inr (s', []) \<and>
         c |\<notin>| clients s' \<and> chan_closed s' c \<and> conn_closes s' c = Suc (conn_closes s c))) \<and>
   (c |\<in>| clients s \<and> \<not> chan_closed s c \<and> conn_closes s c = 0 \<and> process tr s = Inr s' \<longrightarrow>
      conn_closes s' c \<le> 1 \<and> (c |\<notin>| clients s' \<longrightarrow> conn_closes s' c = 1) \<and>
      (\<not> chan_closed s' c \<longrightarrow> conn_closes s' c = 0)) \<and>
   (chan_closed s c \<and> messages s c = [] \<longrightarrow>
      conn_closes (writePump c oks s) c = Suc (conn_closes s c)) \<and>
   (chan_closed s c \<and> length (messages s c) \<le> length oks \<longrightarrow>
      conn_closes (writePump c oks s) c = Suc (conn_closes s c)) \<and>
   (messages s c \<noteq> [] \<and> (\<not> ok \<or> conn_closes s c \<noteq> 0) \<longrightarrow>
      conn_closes (writePump c (ok # oks) s) c = Suc (conn_closes s c)) \<and>
   (c |\<in>| clients s \<and> \<not> chan_closed s c \<and> conn_closes s c = 0 \<and> process tr s = Inr s' \<and>
    c |\<notin>| clients s' \<and> length (messages s' c) \<le> length oks \<longrightarrow>
      conn_closes (writePump c oks s') c = 2)"
proof -
  have 1: "\<exists>s'. dispatch (Unregister c) ord s = Inr (s', leaveMsg c # sendUserList ord) \<and>
         c |\<notin>| clients s' \<and> chan_closed s' c \<and> conn_closes s' c = Suc (conn_closes s c)"
    if "c |\<in>| clients s \<and> \<not> chan_closed s c"
    using that by (simp add: teardown_def)
  have 2: "\<exists>s'. dispatch (Broadcast t) ord s = Inr (s', []) \<and>
         c |\<notin>| clients s' \<and> chan_closed s' c \<and> conn_closes s' c = Suc (conn_closes s c)"
    if h: "wf_server s \<and> enumerates ord (clients s) \<and> c |\<in>| clients s \<and> \<not> length (messages s c) < 256"
  proof -
    from h have w: "wf_server s" and e: "enumerates ord (clients s)" by simp_all
    note B = broadcast_step [OF w e, where t = t]
    from h have "c |\<notin>| clients (fan_out t ord s) \<and> chan_closed (fan_out t ord s) c \<and>
        conn_closes (fan_out t ord s) c = Suc (conn_closes s c)"
      by (simp add: B(3,5,6))
    with B(1) show ?thesis by blast
  qed
  have 3: "closed_once s' c \<and> (c |\<in>| clients s' \<or> chan_closed s' c)"
    if h: "c |\<in>| clients s \<and> \<not> chan_closed s c \<and> conn_closes s c = 0 \<and> process tr s = Inr s'"
  proof -
    from h have "closed_once s c" by (simp add: closed_once_def)
    with h show ?thesis by (intro process_closed_once [of tr s]) simp_all
  qed
  have 4: "conn_closes s' c \<le> 1 \<and> (c |\<notin>| clients s' \<longrightarrow> conn_closes s' c = 1) \<and>
      (\<not> chan_closed s' c \<longrightarrow> conn_closes s' c = 0)"
    if "c |\<in>| clients s \<and> \<not> chan_closed s c \<and> conn_closes s c = 0 \<and> process tr s = Inr s'"
    using 3 [OF that] by (auto simp: closed_once_def split: if_splits)
  have 5: "conn_closes (writePump c oks s) c = Suc (conn_closes s c)"
    if "chan_closed s c \<and> length (messages s c) \<le> length oks"
    using that by (simp add: writePump_closed)
  have 6: "conn_closes (writePump c oks s) c = Suc (conn_closes s c)"
    if "chan_closed s c \<and> messages s c = []"
    using that by (simp add: writePump_closed)
  have 7: "conn_closes (writePump c (ok # oks) s) c = Suc (conn_closes s c)"
    if "messages s c \<noteq> [] \<and> (\<not> ok \<or> conn_closes s c \<noteq> 0)"
    using that writePump_failed_write [of s c ok oks] by blast
  have 8: "conn_closes (writePump c oks s') c = 2"
    if h: "c |\<in>| clients s \<and> \<not> chan_closed s c \<and> conn_closes s c = 0 \<and> process tr s = Inr s' \<and>
      c |\<notin>| clients s' \<and> length (messages s' c) \<le> length oks"
  proof -
    from h have g: "c |\<in>| clients s \<and> \<not> chan_closed s c \<and> conn_closes s c = 0 \<and> process tr s = Inr s'"
      by simp
    from 3 [OF g] 4 [OF g] h have "chan_closed s' c" "conn_closes s' c = 1" by auto
    with h writePump_closed [of s' c oks] show ?thesis by simp
  qed
  from 1 2 4 5 6 7 8 show ?thesis by blast
qed

theorem engine_closes_a_connection_once_witness:
  "al |\<in>| clients duo \<and> \<not> chan_closed duo al \<and> conn_closes duo al = 0 \<and>
   (\<exists>s'. process [Consume (Unregister al) [bo]] duo = Inr s' \<and> al |\<notin>| clients s' \<and>
      conn_closes s' al = 1 \<and> chan_closed s' al \<and> messages s' al = [] \<and>
      conn_closes (writePump al [] s') al = Suc (conn_closes s' al)) \<and>
   wf_server packed \<and> enumerates [al, bo] (clients packed) \<and> al |\<in>| clients packed \<and>
   \<not> length (messages packed al) < 256 \<and> \<not> chan_closed packed al \<and> conn_closes packed al = 0 \<and>
   (\<exists>s'. process [Consume (Broadcast ''x'') [al, bo]] packed = Inr s' \<and> al |\<notin>| clients s' \<and>
      length (messages s' al) = 256 \<and> conn_closes s' al = 1 \<and>
      conn_closes (writePump al (replicate 256 True) s') al = 2) \<and>
   messages packed al \<noteq> [] \<and>
   conn_closes (writePump al [False] packed) al = Suc (conn_closes packed al)"
proof -
  let ?s = "duo\<lparr>clients := clients duo |-| {|al|},
           chan_closed := (chan_closed duo)(al := True),
           conn_closes := (conn_closes duo)(al := Suc (conn_closes duo al))\<rparr>"
  let ?d = "fan_out ''x'' [al, bo] packed"
  note T = engine_closes_a_connection_once
  have h: "al |\<in>| clients duo \<and> \<not> chan_closed duo al \<and> conn_closes duo al = 0" by simp
  have p: "process [Consume (Unregister al) [bo]] duo = Inr ?s" by (simp add: teardown_def)
  have q: "al |\<notin>| clients ?s" "chan_closed ?s al" "messages ?s al = []" by simp_all
  from T [of al duo "[bo]" _ "[Consume (Unregister al) [bo]]" ?s] h p q(1)
  have a: "conn_closes ?s al = 1" by blast
  from T [of al ?s _ _ _ _ "[]"] q
  have b: "conn_closes (writePump al [] ?s) al = Suc (conn_closes ?s al)" by blast
  have k: "al |\<in>| clients packed \<and> \<not> chan_closed packed al \<and> conn_closes packed al = 0"
    and f: "\<not> length (messages packed al) < 256" and ne: "messages packed al \<noteq> []"
    by simp_all
  have "deliver ''x'' [al, bo] packed = Inr ?d" by (rule deliver_eq) simp_all
  then have pd: "process [Consume (Broadcast ''x'') [al, bo]] packed = Inr ?d"
    by (simp del: deliver.simps)
  have qd: "al |\<notin>| clients ?d" "length (messages ?d al) = 256"
    by (simp_all add: fan_out_def full_def)
  then have l: "length (messages ?d al) \<le> length (replicate 256 True)" by simp
  from T [of al packed _ _ "[Consume (Broadcast ''x'') [al, bo]]" ?d "replicate 256 True"] k pd qd(1) l
  have c1: "conn_closes ?d al = 1" and c2: "conn_closes (writePump al (replicate 256 True) ?d) al = 2"
    by blast+
  from T [of al packed _ _ _ _ "[]" False] ne
  have w: "conn_closes (writePump al [False] packed) al = Suc (conn_closes packed al)" by blast
  from h p q a b wf_packed enum_duo(2) k f pd qd c1 c2 ne w show ?thesis by blast
qed

text \<open>
  Claim C8 as stated has every connection closed exactly once, and by the \<^verbatim>\<open>Unregister\<close>
  case only. After the \<^verbatim>\<open>Unregister\<close> of \<open>al\<close>, the outbound pump of \<open>al\<close> returns and the
  connection has been closed twice; and when the queue of \<open>al\<close> is full it is the
  \<^verbatim>\<open>Broadcast\<close> case that closes the connection.
\<close>

theorem connection_closed_twice_counterexample:
  "(case process [Consume (Unregister al) [bo]] duo of
      Inr s \<Rightarrow> conn_closes (writePump al [] s) al | Inl p \<Rightarrow> 0) = 2 \<and>
   (case process [Consume (Broadcast ''x'') [al, bo]] packed of
      Inr s \<Rightarrow> conn_closes s al | Inl p \<Rightarrow> 0) = 1"
proof -
  have "deliver ''x'' [al, bo] packed = Inr (fan_out ''x'' [al, bo] packed)"
    by (rule deliver_eq) simp_all
  then show ?thesis
    by (simp add: teardown_def close_conn_def fan_out_def full_def)
qed

end
